theory Spec2Isabelle
  imports Complex_Main "HOL-Library.Multiset"
begin

section \<open>Cell codes\<close>

text \<open>
  Each entry of the table \<open>codes\<close> of \<open>maze_runner.py\<close> is a triple: the number stored
  in the array, the character of the text format and the colour of the image. The
  numbers are the floats 0.0 .. 7.0, all integral and only ever compared for equality,
  so they are integers here.
\<close>

type_synonym code = "int \<times> char \<times> nat list"

definition code_num :: "code \<Rightarrow> int" where
  "code_num c = fst c"

definition code_char :: "code \<Rightarrow> char" where
  "code_char c = fst (snd c)"

definition code_color :: "code \<Rightarrow> nat list" where
  "code_color c = snd (snd c)"

definition c_path :: code where
  "c_path = (0, CHR '' '', [255, 255, 255])"

definition c_wall :: code where
  "c_wall = (1, CHR ''#'', [0, 0, 0])"

definition c_start :: code where
  "c_start = (2, CHR ''&'', [0, 255, 0])"

definition c_end :: code where
  "c_end = (3, CHR ''!'', [0, 255, 255])"

definition c_visited :: code where
  "c_visited = (5, CHR ''.'', [255, 0, 0])"

definition c_finalpath :: code where
  "c_finalpath = (6, CHR ''*'', [255, 255, 0])"

definition c_current :: code where
  "c_current = (7, CHR ''@'', [0, 255, 255])"

definition codes :: "code list" where
  "codes = [c_path, c_wall, c_start, c_end, c_visited, c_finalpath, c_current]"

lemmas code_defs =
  code_num_def code_char_def code_color_def
  c_path_def c_wall_def c_start_def c_end_def c_visited_def c_finalpath_def c_current_def

section \<open>Errors and arrays\<close>

datatype error = IndexError | ValueError

text \<open>
  A two-dimensional numpy array: its shape and its cells. Indexing follows numpy: an
  index \<open>i\<close> of an axis of size \<open>n\<close> is valid when \<open>-n \<le> i < n\<close>, a negative one counts
  from the end, and any other raises IndexError.
\<close>

record ndarray =
  nrows :: nat
  ncols :: nat
  cell :: "nat \<times> nat \<Rightarrow> int"

definition zeros :: "nat \<Rightarrow> nat \<Rightarrow> ndarray" where
  "zeros h w = \<lparr>nrows = h, ncols = w, cell = (\<lambda>_. 0)\<rparr>"

definition norm_index :: "nat \<Rightarrow> int \<Rightarrow> error + nat" where
  "norm_index n i =
     (if 0 \<le> i \<and> i < int n then Inr (nat i)
      else if - int n \<le> i \<and> i < 0 then Inr (nat (i + int n))
      else Inl IndexError)"

definition getitem :: "ndarray \<Rightarrow> int \<times> int \<Rightarrow> error + int" where
  "getitem mat p =
     (case norm_index (nrows mat) (fst p) of
        Inl e \<Rightarrow> Inl e
      | Inr r \<Rightarrow> (case norm_index (ncols mat) (snd p) of
                   Inl e \<Rightarrow> Inl e
                 | Inr c \<Rightarrow> Inr (cell mat (r, c))))"

definition setitem :: "ndarray \<Rightarrow> int \<times> int \<Rightarrow> int \<Rightarrow> error + ndarray" where
  "setitem mat p v =
     (case norm_index (nrows mat) (fst p) of
        Inl e \<Rightarrow> Inl e
      | Inr r \<Rightarrow> (case norm_index (ncols mat) (snd p) of
                   Inl e \<Rightarrow> Inl e
                 | Inr c \<Rightarrow> Inr (mat\<lparr>cell := (cell mat)((r, c) := v)\<rparr>)))"

text \<open>\<open>mat[:, j] = v\<close> and \<open>mat[i, :] = v\<close>.\<close>

definition set_col :: "ndarray \<Rightarrow> int \<Rightarrow> int \<Rightarrow> error + ndarray" where
  "set_col mat j v =
     (case norm_index (ncols mat) j of
        Inl e \<Rightarrow> Inl e
      | Inr c \<Rightarrow> Inr (mat\<lparr>cell := (\<lambda>q. if snd q = c then v else cell mat q)\<rparr>))"

definition set_row :: "ndarray \<Rightarrow> int \<Rightarrow> int \<Rightarrow> error + ndarray" where
  "set_row mat i v =
     (case norm_index (nrows mat) i of
        Inl e \<Rightarrow> Inl e
      | Inr r \<Rightarrow> Inr (mat\<lparr>cell := (\<lambda>q. if fst q = r then v else cell mat q)\<rparr>))"

text \<open>
  \<open>mat[1:h - 1, 1:w - 1]\<close> for \<open>h - 1\<close> and \<open>w - 1\<close> that are not negative: the rows
  \<open>1 .. h - 2\<close> and the columns \<open>1 .. w - 2\<close>, none when the stop is not above 1.
\<close>

definition trim :: "ndarray \<Rightarrow> nat \<Rightarrow> nat \<Rightarrow> ndarray" where
  "trim mat h w =
     \<lparr>nrows = min (h - 1) (nrows mat) - 1, ncols = min (w - 1) (ncols mat) - 1,
      cell = (\<lambda>q. cell mat (Suc (fst q), Suc (snd q)))\<rparr>"

fun foldM :: "('a \<Rightarrow> 's \<Rightarrow> error + 's) \<Rightarrow> 'a list \<Rightarrow> 's \<Rightarrow> error + 's" where
  "foldM f [] s = Inr s"
| "foldM f (x # xs) s = (case f x s of Inl e \<Rightarrow> Inl e | Inr s' \<Rightarrow> foldM f xs s')"

section \<open>Serializer\<close>

abbreviation NL :: char where
  "NL \<equiv> CHR 0x0A"

text \<open>Python's \<open>maze.split('\n')\<close>: never empty, one more piece than there are line breaks.\<close>

fun split_nl :: "string \<Rightarrow> string list" where
  "split_nl [] = [[]]"
| "split_nl (c # cs) =
     (if c = NL then [] # split_nl cs
      else (case split_nl cs of [] \<Rightarrow> [[c]] | l # ls \<Rightarrow> (c # l) # ls))"

definition store_code :: "nat \<Rightarrow> nat \<Rightarrow> char \<Rightarrow> code \<Rightarrow> ndarray \<Rightarrow> error + ndarray" where
  "store_code y x c code mat =
     (if c = code_char code then setitem mat (int y, int x) (code_num code) else Inr mat)"

definition parse_char :: "nat \<Rightarrow> nat \<times> char \<Rightarrow> ndarray \<Rightarrow> error + ndarray" where
  "parse_char y xc mat = foldM (store_code y (fst xc) (snd xc)) codes mat"

definition parse_line :: "nat \<times> string \<Rightarrow> ndarray \<Rightarrow> error + ndarray" where
  "parse_line yl mat = foldM (parse_char (fst yl)) (enumerate 0 (snd yl)) mat"

definition string_to_array_maze :: "string \<Rightarrow> error + ndarray" where
  "string_to_array_maze maze =
     (let lines = split_nl maze
      in foldM parse_line (enumerate 0 lines) (zeros (length lines) (length (hd lines))))"

text \<open>The inner loop of \<open>array_to_string_maze\<close>: the character of the first code whose
  number matches, nothing for a number that no code has.\<close>

fun glyph :: "code list \<Rightarrow> int \<Rightarrow> string" where
  "glyph [] v = []"
| "glyph (code # cs) v = (if v = code_num code then [code_char code] else glyph cs v)"

definition row_string :: "ndarray \<Rightarrow> nat \<Rightarrow> string" where
  "row_string mat y = concat (map (\<lambda>x. glyph codes (cell mat (y, x))) [0..<ncols mat]) @ [NL]"

definition array_to_string_maze :: "ndarray \<Rightarrow> string" where
  "array_to_string_maze mat = concat (map (row_string mat) [0..<nrows mat])"

section \<open>Random and arbitrary choices\<close>

text \<open>
  The program draws from Python's global random generator (\<open>shuffle\<close>, \<open>randrange\<close>) and
  pops from a set, which yields an arbitrary element. Every such choice is read from a
  tape of draws \<open>rnd\<close>, at a position that the state carries: a property proved for
  every tape holds for every run.
\<close>

definition bindE :: "error + 'a \<Rightarrow> ('a \<Rightarrow> error + 'b) \<Rightarrow> error + 'b" where
  "bindE m f = (case m of Inl e \<Rightarrow> Inl e | Inr x \<Rightarrow> f x)"

definition randrange :: "(nat \<Rightarrow> nat) \<Rightarrow> nat \<Rightarrow> nat \<Rightarrow> error + nat" where
  "randrange rnd k n = (if n = 0 then Inl ValueError else Inr (rnd k mod n))"

definition remove_nth :: "nat \<Rightarrow> 'a list \<Rightarrow> 'a list" where
  "remove_nth i xs = take i xs @ drop (Suc i) xs"

fun shuffle_n :: "nat \<Rightarrow> (nat \<Rightarrow> nat) \<Rightarrow> nat \<Rightarrow> 'a list \<Rightarrow> 'a list" where
  "shuffle_n 0 rnd k xs = []"
| "shuffle_n (Suc n) rnd k xs =
     (if xs = [] then []
      else xs ! (rnd k mod length xs)
           # shuffle_n n rnd (Suc k) (remove_nth (rnd k mod length xs) xs))"

text \<open>\<open>shuffle(xs)\<close>: a permutation of \<open>xs\<close> picked by \<open>length xs\<close> draws.\<close>

definition shuffle :: "(nat \<Rightarrow> nat) \<Rightarrow> nat \<Rightarrow> 'a list \<Rightarrow> 'a list" where
  "shuffle rnd k xs = shuffle_n (length xs) rnd k xs"

section \<open>Maze generator\<close>

text \<open>
  The list \<open>visiting\<close> of \<open>make_maze\<close> is extended by \<open>visiting += current\<close>, which appends
  the two numbers of the pair, not the pair. Its elements are therefore Python values of
  two kinds, and \<open>n not in visiting\<close> compares a pair with them.
\<close>

datatype pyval = PyInt int | PyTuple "int \<times> int"

record gen_state =
  gmat :: ndarray
  unvisited :: "(int \<times> int) list"
  visiting :: "pyval list"
  gpos :: nat

definition odds :: "nat \<Rightarrow> nat list" where
  "odds n = filter (\<lambda>y. y mod 2 \<noteq> 0) [0..<n]"

text \<open>The pairs \<open>(y, x)\<close> in the order of the two nested iterations: \<open>x\<close> outside, \<open>y\<close> inside.\<close>

definition rooms :: "nat \<Rightarrow> nat \<Rightarrow> (int \<times> int) list" where
  "rooms h w = concat (map (\<lambda>x. map (\<lambda>y. (int y, int x)) (odds h)) (odds w))"

definition two_away :: "int \<times> int \<Rightarrow> (int \<times> int) list" where
  "two_away current =
     [(fst current - 2, snd current), (fst current + 2, snd current),
      (fst current, snd current - 2), (fst current, snd current + 2)]"

definition carve :: "ndarray \<Rightarrow> int \<times> int \<Rightarrow> int \<times> int \<Rightarrow> error + ndarray" where
  "carve mat current chosen =
     (if fst chosen + 2 = fst current then setitem mat (fst current - 1, snd current) 1
      else if fst chosen - 2 = fst current then setitem mat (fst current + 1, snd current) 1
      else if snd chosen + 2 = snd current then setitem mat (fst current, snd current - 1) 1
      else if snd chosen - 2 = snd current then setitem mat (fst current, snd current + 1) 1
      else Inr mat)"

text \<open>One pass of the body of \<open>while unvisited\<close>; the set is not empty there.\<close>

definition carve_step :: "(nat \<Rightarrow> nat) \<Rightarrow> gen_state \<Rightarrow> error + gen_state" where
  "carve_step rnd s =
     (let i = rnd (gpos s) mod length (unvisited s);
          current = unvisited s ! i;
          unv = remove_nth i (unvisited s);
          unvisited_neighbors =
            filter (\<lambda>n. n \<in> set unv \<and> PyTuple n \<notin> set (visiting s)) (two_away current)
      in if unvisited_neighbors \<noteq> [] then
           (let shuffled = shuffle rnd (Suc (gpos s)) unvisited_neighbors;
                chosen = hd shuffled
            in bindE (carve (gmat s) current chosen) (\<lambda>m.
                 Inr \<lparr>gmat = m, unvisited = unv,
                      visiting = visiting s @ [PyInt (fst current), PyInt (snd current)],
                      gpos = Suc (gpos s) + length unvisited_neighbors\<rparr>))
         else if visiting s \<noteq> [] then
           Inr \<lparr>gmat = gmat s, unvisited = unv, visiting = butlast (visiting s),
                gpos = Suc (gpos s)\<rparr>
         else
           Inr \<lparr>gmat = gmat s, unvisited = unv, visiting = visiting s, gpos = Suc (gpos s)\<rparr>)"

function carve_loop :: "(nat \<Rightarrow> nat) \<Rightarrow> gen_state \<Rightarrow> error + gen_state" where
  "carve_loop rnd s =
     (if unvisited s = [] then Inr s
      else (case carve_step rnd s of Inl e \<Rightarrow> Inl e | Inr s' \<Rightarrow> carve_loop rnd s'))"
  by pat_completeness auto
termination
proof (relation "measure (\<lambda>(rnd, s). length (unvisited s))")
  show "wf (measure (\<lambda>(rnd, s). length (unvisited s)))"
    by simp
next
  fix rnd :: "nat \<Rightarrow> nat" and s s' :: gen_state
  assume ne: "unvisited s \<noteq> []" and st: "carve_step rnd s = Inr s'"
  have lt: "rnd (gpos s) mod length (unvisited s) < length (unvisited s)"
    using ne by simp
  have "unvisited s' = remove_nth (rnd (gpos s) mod length (unvisited s)) (unvisited s)"
    using st by (auto simp: carve_step_def Let_def bindE_def split: if_splits sum.splits)
  then have "length (unvisited s') < length (unvisited s)"
    using lt by (simp add: remove_nth_def)
  then show "((rnd, s'), (rnd, s)) \<in> measure (\<lambda>(rnd, s). length (unvisited s))"
    by simp
qed

text \<open>
  The placement of Start and End: \<open>start is not None or end is not None\<close> holds for every
  pair of booleans. \<open>randrange\<close> raises ValueError when no space is left.
\<close>

definition place_marks :: "bool \<Rightarrow> bool \<Rightarrow> (nat \<Rightarrow> nat) \<Rightarrow> nat \<Rightarrow> string \<Rightarrow> error + string" where
  "place_marks start end' rnd k maze =
     (let spaces = map fst (filter (\<lambda>ic. snd ic = CHR '' '') (enumerate 0 maze))
      in bindE (if start
                then bindE (randrange rnd k (length spaces)) (\<lambda>i.
                       Inr (maze[spaces ! i := code_char c_start], remove_nth i spaces, Suc k))
                else Inr (maze, spaces, k)) (\<lambda>(maze1, spaces1, k1).
           if end'
           then bindE (randrange rnd k1 (length spaces1)) (\<lambda>j.
                  Inr (maze1[spaces1 ! j := code_char c_end]))
           else Inr maze1))"

text \<open>The array of \<open>make_maze\<close> just before it is turned into text.\<close>

definition make_array :: "nat \<Rightarrow> nat \<Rightarrow> (nat \<Rightarrow> nat) \<Rightarrow> error + ndarray \<times> nat" where
  "make_array w0 h0 rnd =
     (let h = h0 + 1; w = w0 + 1
      in bindE (foldM (\<lambda>p m. setitem m p 1) (rooms h w) (zeros h w)) (\<lambda>mat0.
         bindE (carve_loop rnd \<lparr>gmat = mat0, unvisited = rooms h w, visiting = [], gpos = 0\<rparr>) (\<lambda>s.
         bindE (set_col (gmat s) 1 1) (\<lambda>m1.
         bindE (set_col m1 (int w - 2) 1) (\<lambda>m2.
         bindE (set_row m2 1 1) (\<lambda>m3.
         bindE (set_row m3 (int h - 2) 1) (\<lambda>m4.
         Inr (trim m4 h w, gpos s))))))))"

definition make_maze :: "nat \<Rightarrow> nat \<Rightarrow> bool \<Rightarrow> bool \<Rightarrow> (nat \<Rightarrow> nat) \<Rightarrow> error + string" where
  "make_maze w h start end' rnd =
     bindE (make_array w h rnd) (\<lambda>(mat, k).
       place_marks start end' rnd k (array_to_string_maze mat))"

section \<open>Solver\<close>

text \<open>
  \<open>distance\<close> is the source's, over the reals. Python computes it in floating point;
  the program only compares two distances, and for coordinates of a grid the float
  square roots are ordered as the real ones are.
\<close>

definition distance :: "int \<times> int \<Rightarrow> int \<times> int \<Rightarrow> real" where
  "distance p1 p2 = sqrt (real_of_int ((snd p2 - snd p1)\<^sup>2 + (fst p2 - fst p1)\<^sup>2))"

text \<open>\<open>sorted(next, key=lambda p: distance(p, end))\<close>; Python's sort is stable, as \<open>sort_key\<close> is.\<close>

definition sorted_by_distance :: "int \<times> int \<Rightarrow> (int \<times> int) list \<Rightarrow> (int \<times> int) list" where
  "sorted_by_distance end' next = sort_key (\<lambda>p. distance p end') next"

record setting =
  strategy :: string
  verbosity :: int
  paths :: nat
  startp :: "int \<times> int"
  endp :: "int \<times> int"

record solver_state =
  mat :: ndarray
  stack :: "(int \<times> int) list"
  step :: nat
  explored :: nat
  walked :: nat
  max_depth :: nat
  draws :: nat

text \<open>\<open>np.nonzero(mat == v)\<close>: the coordinates of the cells equal to \<open>v\<close>, row by row.\<close>

definition coords :: "ndarray \<Rightarrow> (nat \<times> nat) list" where
  "coords m = concat (map (\<lambda>r. map (\<lambda>c. (r, c)) [0..<ncols m]) [0..<nrows m])"

definition nonzero_eq :: "ndarray \<Rightarrow> int \<Rightarrow> (nat \<times> nat) list" where
  "nonzero_eq m v = filter (\<lambda>q. cell m q = v) (coords m)"

definition first_coord :: "(nat \<times> nat) list \<Rightarrow> error + int \<times> int" where
  "first_coord qs = (case qs of [] \<Rightarrow> Inl IndexError | q # _ \<Rightarrow> Inr (int (fst q), int (snd q)))"

definition solve_init :: "string \<Rightarrow> string \<Rightarrow> int \<Rightarrow> error + setting \<times> solver_state" where
  "solve_init maze strat verb =
     (if strat \<notin> set [''dfs'', ''bfs'', ''a*''] then Inl ValueError
      else bindE (string_to_array_maze maze) (\<lambda>m.
           bindE (first_coord (nonzero_eq m (code_num c_start))) (\<lambda>start.
           bindE (first_coord (nonzero_eq m (code_num c_end))) (\<lambda>end'.
           Inr (\<lparr>strategy = strat, verbosity = verb, paths = length (nonzero_eq m 0),
                 startp = start, endp = end'\<rparr>,
                \<lparr>mat = m, stack = [start], step = 0, explored = 0, walked = 0,
                 max_depth = 0, draws = 0\<rparr>)))))"

definition pop_stack :: "string \<Rightarrow> 'a list \<Rightarrow> 'a \<times> 'a list" where
  "pop_stack strat st = (if strat = ''bfs'' then (hd st, tl st) else (last st, butlast st))"

definition prospective :: "int \<times> int \<Rightarrow> (int \<times> int) list" where
  "prospective p = [(fst p - 1, snd p), (fst p, snd p - 1), (fst p + 1, snd p), (fst p, snd p + 1)]"

text \<open>The loop over the four prospective cells; reading a cell may raise IndexError.\<close>

fun admissible :: "ndarray \<Rightarrow> (int \<times> int) list \<Rightarrow> error + (int \<times> int) list" where
  "admissible m [] = Inr []"
| "admissible m (p # ps) =
     (case getitem m p of
        Inl e \<Rightarrow> Inl e
      | Inr v \<Rightarrow> (case admissible m ps of
                   Inl e \<Rightarrow> Inl e
                 | Inr r \<Rightarrow> Inr (if v \<notin> set [code_num c_wall, code_num c_visited]
                                then p # r else r)))"

text \<open>
  One pass of the body of \<open>while stack\<close>, for a stack that is not empty. The flag of the
  result says whether the pass ended in \<open>break\<close>. Printing, the progress bar and the
  image do not change the state and are left out.
\<close>

definition solve_iter :: "(nat \<Rightarrow> nat) \<Rightarrow> setting \<Rightarrow> solver_state \<Rightarrow> error + bool \<times> solver_state" where
  "solve_iter rnd cfg s =
     (let current = fst (pop_stack (strategy cfg) (stack s));
          rest = snd (pop_stack (strategy cfg) (stack s));
          step' = step s + 1;
          max_depth' = (if step' > max_depth s then step' else max_depth s)
      in bindE (setitem (mat s) current (code_num c_current)) (\<lambda>m1.
         if current = endp cfg then
           bindE (setitem m1 (startp cfg) (code_num c_start)) (\<lambda>m2.
           bindE (setitem m2 current (code_num c_end)) (\<lambda>m3.
           Inr (True, \<lparr>mat = m3, stack = rest, step = step', explored = explored s + 1,
                       walked = walked s + 1, max_depth = max_depth', draws = draws s\<rparr>)))
         else
           bindE (setitem m1 current (code_num c_visited)) (\<lambda>m2.
           bindE (admissible m2 (prospective current)) (\<lambda>next.
           bindE (if verbosity cfg \<ge> 3 then setitem m2 current (code_num c_current)
                  else Inr m2) (\<lambda>m3.
           Inr (False,
                \<lparr>mat = m3,
                 stack = rest @ (if strategy cfg = ''a*''
                                 then sorted_by_distance (endp cfg) next
                                 else shuffle rnd (draws s) next),
                 step = step', explored = explored s + 1, walked = walked s + 1 + 1,
                 max_depth = max_depth',
                 draws = (if strategy cfg = ''a*'' then draws s
                          else draws s + length next)\<rparr>))))))"

datatype outcome = Found | Exhausted

text \<open>
  The loop \<open>while stack\<close>, with fuel: \<open>None\<close> when the fuel runs out before the loop ends.
\<close>

fun solve_loop ::
  "nat \<Rightarrow> (nat \<Rightarrow> nat) \<Rightarrow> setting \<Rightarrow> solver_state \<Rightarrow> (error + outcome \<times> solver_state) option" where
  "solve_loop 0 rnd cfg s = None"
| "solve_loop (Suc n) rnd cfg s =
     (if stack s = [] then Some (Inr (Exhausted, s))
      else (case solve_iter rnd cfg s of
              Inl e \<Rightarrow> Some (Inl e)
            | Inr r \<Rightarrow> if fst r then Some (Inr (Found, snd r))
                       else solve_loop n rnd cfg (snd r)))"

definition solve ::
  "nat \<Rightarrow> (nat \<Rightarrow> nat) \<Rightarrow> string \<Rightarrow> string \<Rightarrow> int \<Rightarrow> (error + outcome \<times> solver_state) option" where
  "solve fuel rnd maze strat verb =
     (case solve_init maze strat verb of
        Inl e \<Rightarrow> Some (Inl e)
      | Inr cs \<Rightarrow> solve_loop fuel rnd (fst cs) (snd cs))"

text \<open>
  The state after exactly \<open>k\<close> pops, each with its pass completed: \<open>None\<close> when the loop
  has ended or raised before. The flag says whether the last pop was the End cell.
\<close>

fun pops :: "nat \<Rightarrow> (nat \<Rightarrow> nat) \<Rightarrow> setting \<Rightarrow> solver_state \<Rightarrow> (bool \<times> solver_state) option" where
  "pops 0 rnd cfg s = Some (False, s)"
| "pops (Suc k) rnd cfg s =
     (if stack s = [] then None
      else (case solve_iter rnd cfg s of
              Inl e \<Rightarrow> None
            | Inr r \<Rightarrow> if fst r then (if k = 0 then Some r else None)
                       else pops k rnd cfg (snd r)))"

section \<open>Notions of the claims\<close>

text \<open>A tape given by its first draws, 0 afterwards.\<close>

definition tape :: "nat list \<Rightarrow> nat \<Rightarrow> nat" where
  "tape ds k = (if k < length ds then ds ! k else 0)"

text \<open>
  The cell at row \<open>r\<close> and column \<open>c\<close> of a maze text is a Path cell; two Path cells are
  linked when they are next to each other in a row or a column.
\<close>

definition is_path :: "string \<Rightarrow> nat \<times> nat \<Rightarrow> bool" where
  "is_path maze q =
     (fst q < length (split_nl maze) \<and> snd q < length (split_nl maze ! fst q)
      \<and> split_nl maze ! fst q ! snd q = code_char c_path)"

definition adjacent :: "nat \<times> nat \<Rightarrow> nat \<times> nat \<Rightarrow> bool" where
  "adjacent p q =
     ((fst p = fst q \<and> (snd p = Suc (snd q) \<or> snd q = Suc (snd p)))
      \<or> (snd p = snd q \<and> (fst p = Suc (fst q) \<or> fst q = Suc (fst p))))"

definition link :: "string \<Rightarrow> ((nat \<times> nat) \<times> (nat \<times> nat)) set" where
  "link maze = {(p, q). is_path maze p \<and> is_path maze q \<and> adjacent p q}"

text \<open>The cell that the next pass of the loop pops.\<close>

definition popped :: "setting \<Rightarrow> solver_state \<Rightarrow> int \<times> int" where
  "popped cfg s = fst (pop_stack (strategy cfg) (stack s))"

text \<open>A coordinate that indexes the array without wrapping.\<close>

definition in_bounds :: "ndarray \<Rightarrow> int \<times> int \<Rightarrow> bool" where
  "in_bounds m p = (0 \<le> fst p \<and> fst p < int (nrows m) \<and> 0 \<le> snd p \<and> snd p < int (ncols m))"

definition on_border :: "ndarray \<Rightarrow> nat \<times> nat \<Rightarrow> bool" where
  "on_border m q =
     (fst q < nrows m \<and> snd q < ncols m
      \<and> (fst q = 0 \<or> Suc (fst q) = nrows m \<or> snd q = 0 \<or> Suc (snd q) = ncols m))"

definition border_walls :: "ndarray \<Rightarrow> bool" where
  "border_walls m = (\<forall>q. on_border m q \<longrightarrow> cell m q = code_num c_wall)"

text \<open>
  The states of the run of \<open>solve\<close> on the corridor \<open>#!& #\<close> at verbosity 3: the two open
  cells right of End are never Visited, and the frontier is copies of End below one of
  them.
\<close>

definition pingpong :: "solver_state \<Rightarrow> bool" where
  "pingpong s \<longleftrightarrow>
     nrows (mat s) = 3 \<and> ncols (mat s) = 5
     \<and> cell (mat s) (0, 2) = 1 \<and> cell (mat s) (2, 2) = 1 \<and> cell (mat s) (0, 3) = 1
     \<and> cell (mat s) (2, 3) = 1 \<and> cell (mat s) (1, 4) = 1 \<and> cell (mat s) (1, 1) = 3
     \<and> cell (mat s) (1, 2) \<in> {2, 7} \<and> cell (mat s) (1, 3) \<in> {0, 7}
     \<and> stack s \<noteq> [] \<and> set (butlast (stack s)) \<subseteq> {(1, 1)}
     \<and> last (stack s) \<in> {(1, 2), (1, 3)}"

text \<open>
  The rows of a maze text: the pieces of \<open>maze.split('\n')\<close>, without the empty piece that
  follows a final line break. Such rows are a grid with a Wall border when they all have
  the length of the first and every character of the first row, the last row, the first
  column and the last column is the Wall character.
\<close>

definition text_rows :: "string \<Rightarrow> string list" where
  "text_rows maze =
     (if last (split_nl maze) = [] then butlast (split_nl maze) else split_nl maze)"

definition wall_bordered :: "string list \<Rightarrow> bool" where
  "wall_bordered rows \<longleftrightarrow>
     (\<forall>r \<in> set rows. length r = length (hd rows))
     \<and> (\<forall>i \<in> set [0..<length rows]. \<forall>j \<in> set [0..<length (rows ! i)].
           (i = 0 \<or> Suc i = length rows \<or> j = 0 \<or> Suc j = length (rows ! i))
           \<longrightarrow> rows ! i ! j = code_char c_wall)"

text \<open>
  What the parser leaves in a cell that held \<open>v\<close> after it has read the character \<open>c\<close> for
  it: the number of the code of \<open>c\<close>, or \<open>v\<close> when no code has \<open>c\<close>.
\<close>

definition put :: "char \<Rightarrow> int \<Rightarrow> int" where
  "put c v = foldl (\<lambda>v code. if c = code_char code then code_num code else v) v codes"

text \<open>
  The invariant of the loop on a maze whose text rows have a Wall border. The array has
  the rows of the text as its first \<open>H\<close> rows (and one more row when the text ends with a
  line break); \<open>crop H W\<close> is the view of these rows. The border of the view is Wall, and
  every cell of the frontier lies in the view and is not Wall.
\<close>

definition cell_at :: "ndarray \<Rightarrow> int \<times> int \<Rightarrow> int" where
  "cell_at m p = cell m (nat (fst p), nat (snd p))"

definition crop :: "nat \<Rightarrow> nat \<Rightarrow> ndarray \<Rightarrow> ndarray" where
  "crop H W m = m\<lparr>nrows := H, ncols := W\<rparr>"

definition safe :: "nat \<Rightarrow> nat \<Rightarrow> setting \<Rightarrow> solver_state \<Rightarrow> bool" where
  "safe H W cfg s \<longleftrightarrow>
     H \<le> nrows (mat s) \<and> W \<le> ncols (mat s)
     \<and> border_walls (crop H W (mat s)) \<and> in_bounds (crop H W (mat s)) (startp cfg)
     \<and> (\<forall>p \<in> set (stack s).
           in_bounds (crop H W (mat s)) p \<and> cell_at (mat s) p \<noteq> code_num c_wall)"

text \<open>
  Notions for the generator: an array of Path and Wall cells only; the invariant of the
  carving loop (the shape is kept and every room still unvisited is in bounds); the rows
  of the text of such an array; a character and what the placement of Start and End may
  put in its place.
\<close>

definition binary :: "ndarray \<Rightarrow> bool" where
  "binary m \<longleftrightarrow> (\<forall>q. cell m q = 0 \<or> cell m q = 1)"

definition gen_ok :: "nat \<Rightarrow> nat \<Rightarrow> gen_state \<Rightarrow> bool" where
  "gen_ok h w s \<longleftrightarrow>
     nrows (gmat s) = h \<and> ncols (gmat s) = w \<and> binary (gmat s)
     \<and> (\<forall>p \<in> set (unvisited s). in_bounds (gmat s) p)"

definition tile :: "int \<Rightarrow> char" where
  "tile v = (if v = 0 then CHR '' '' else CHR ''#'')"

definition grid_rows :: "ndarray \<Rightarrow> string list" where
  "grid_rows m = map (\<lambda>y. map (\<lambda>x. tile (cell m (y, x))) [0..<ncols m]) [0..<nrows m]"

definition marked :: "char \<Rightarrow> char \<Rightarrow> bool" where
  "marked c c' \<longleftrightarrow> c' = c \<or> (c = CHR '' '' \<and> (c' = CHR ''&'' \<or> c' = CHR ''!''))"

text \<open>
  The measure of the loop of \<open>solve\<close>: the cells not yet Visited, then the entries of the
  frontier whose cell is Visited.
\<close>

definition fresh_cells :: "ndarray \<Rightarrow> nat" where
  "fresh_cells m = length (filter (\<lambda>q. cell m q \<noteq> code_num c_visited) (coords m))"

definition stale_entries :: "solver_state \<Rightarrow> nat" where
  "stale_entries s =
     length (filter (\<lambda>p. getitem (mat s) p = Inr (code_num c_visited)) (stack s))"

section \<open>The code table\<close>

text \<open>
  C3 (counterexample). The colours of the table are not pairwise different: the End
  state and the Current state have the same colour.
\<close>

theorem codes_color_not_injective:
  "code_color c_end = code_color c_current \<and> c_end \<noteq> c_current
   \<and> \<not> distinct (map code_color codes)"
  by (simp add: codes_def code_defs)

text \<open>
  C3 (amended). The seven characters of the table are pairwise different, and so are
  the seven numbers; the colours of the six states other than Current are pairwise
  different, and Current has the colour of End.
\<close>

theorem codes_injective_but_current_color:
  "distinct (map code_char codes) \<and> distinct (map code_num codes)
   \<and> distinct (map code_color [c_path, c_wall, c_start, c_end, c_visited, c_finalpath])
   \<and> code_color c_current = code_color c_end"
  by (simp add: codes_def code_defs)

section \<open>Evaluation and unfolding lemmas\<close>

lemma insort_key_cong_order:
  assumes "\<And>x y. f x \<le> f y \<longleftrightarrow> g x \<le> g y"
  shows "insort_key f x ys = insort_key g x ys"
  by (induction ys) (simp_all add: assms)

lemma sort_key_cong_order:
  assumes "\<And>x y. f x \<le> f y \<longleftrightarrow> g x \<le> g y"
  shows "sort_key f xs = sort_key g xs"
  by (induction xs) (simp_all add: insort_key_cong_order[OF assms])

lemma sorted_by_distance_code [code]:
  "sorted_by_distance e xs = sort_key (\<lambda>p. (snd e - snd p)\<^sup>2 + (fst e - fst p)\<^sup>2) xs"
  unfolding sorted_by_distance_def distance_def
  by (rule sort_key_cong_order) (simp only: real_sqrt_le_iff of_int_le_iff)

lemma bindE_Inr_iff: "bindE m f = Inr y \<longleftrightarrow> (\<exists>x. m = Inr x \<and> f x = Inr y)"
  by (cases m) (simp_all add: bindE_def)

lemma setitem_shape:
  "setitem m p v = Inr m' \<Longrightarrow> nrows m' = nrows m \<and> ncols m' = ncols m"
  by (auto simp: setitem_def split: sum.splits)

lemma bindE_InrE:
  assumes "bindE m f = Inr y"
  obtains x where "m = Inr x" and "f x = Inr y"
  using assms by (auto simp: bindE_Inr_iff)

lemma solve_iter_continue:
  assumes "solve_iter rnd cfg s = Inr (False, s')"
  shows "\<exists>m1 m2 nxt m3.
           setitem (mat s) (popped cfg s) (code_num c_current) = Inr m1
         \<and> popped cfg s \<noteq> endp cfg
         \<and> setitem m1 (popped cfg s) (code_num c_visited) = Inr m2
         \<and> admissible m2 (prospective (popped cfg s)) = Inr nxt
         \<and> (if verbosity cfg \<ge> 3
             then setitem m2 (popped cfg s) (code_num c_current)
             else Inr m2) = Inr m3
         \<and> s' = \<lparr>mat = m3,
                  stack = snd (pop_stack (strategy cfg) (stack s))
                          @ (if strategy cfg = ''a*''
                             then sorted_by_distance (endp cfg) nxt
                             else shuffle rnd (draws s) nxt),
                  step = step s + 1, explored = explored s + 1, walked = walked s + 1 + 1,
                  max_depth = (if step s + 1 > max_depth s then step s + 1 else max_depth s),
                  draws = (if strategy cfg = ''a*'' then draws s else draws s + length nxt)\<rparr>"
proof -
  from assms obtain m1 where m1: "setitem (mat s) (popped cfg s) (code_num c_current) = Inr m1"
    and r1: "(if popped cfg s = endp cfg then
           bindE (setitem m1 (startp cfg) (code_num c_start)) (\<lambda>m2.
           bindE (setitem m2 (popped cfg s) (code_num c_end)) (\<lambda>m3.
           Inr (True, \<lparr>mat = m3, stack = snd (pop_stack (strategy cfg) (stack s)), step = step s + 1, explored = explored s + 1,
                       walked = walked s + 1, max_depth = (if step s + 1 > max_depth s then step s + 1 else max_depth s), draws = draws s\<rparr>)))
         else
           bindE (setitem m1 (popped cfg s) (code_num c_visited)) (\<lambda>m2.
           bindE (admissible m2 (prospective (popped cfg s))) (\<lambda>next.
           bindE (if verbosity cfg \<ge> 3 then setitem m2 (popped cfg s) (code_num c_current)
                  else Inr m2) (\<lambda>m3.
           Inr (False,
                \<lparr>mat = m3,
                 stack = snd (pop_stack (strategy cfg) (stack s)) @ (if strategy cfg = ''a*''
                                 then sorted_by_distance (endp cfg) next
                                 else shuffle rnd (draws s) next),
                 step = step s + 1, explored = explored s + 1, walked = walked s + 1 + 1,
                 max_depth = (if step s + 1 > max_depth s then step s + 1 else max_depth s),
                 draws = (if strategy cfg = ''a*'' then draws s
                          else draws s + length next)\<rparr>))))) = Inr (False, s')"
    unfolding solve_iter_def Let_def popped_def by (erule bindE_InrE)
  have ne: "popped cfg s \<noteq> endp cfg"
  proof
    assume "popped cfg s = endp cfg"
    with r1 show False by (auto elim!: bindE_InrE)
  qed
  with r1 obtain m2 nxt m3 where
    "setitem m1 (popped cfg s) (code_num c_visited) = Inr m2"
    "admissible m2 (prospective (popped cfg s)) = Inr nxt"
    "(if verbosity cfg \<ge> 3 then setitem m2 (popped cfg s) (code_num c_current) else Inr m2) = Inr m3"
    "s' = \<lparr>mat = m3,
                  stack = snd (pop_stack (strategy cfg) (stack s))
                          @ (if strategy cfg = ''a*''
                             then sorted_by_distance (endp cfg) nxt
                             else shuffle rnd (draws s) nxt),
                  step = step s + 1, explored = explored s + 1, walked = walked s + 1 + 1,
                  max_depth = (if step s + 1 > max_depth s then step s + 1 else max_depth s),
                  draws = (if strategy cfg = ''a*'' then draws s else draws s + length nxt)\<rparr>"
    by (simp only: if_False) (elim bindE_InrE, simp only: sum.inject prod.inject simp_thms)
  with m1 ne show ?thesis by blast
qed


lemma solve_iter_found:
  assumes "solve_iter rnd cfg s = Inr (True, s')"
  shows "\<exists>m1 m2 m3.
           setitem (mat s) (popped cfg s) (code_num c_current) = Inr m1
         \<and> popped cfg s = endp cfg
         \<and> setitem m1 (startp cfg) (code_num c_start) = Inr m2
         \<and> setitem m2 (popped cfg s) (code_num c_end) = Inr m3
         \<and> s' = \<lparr>mat = m3, stack = snd (pop_stack (strategy cfg) (stack s)),
                  step = step s + 1, explored = explored s + 1, walked = walked s + 1,
                  max_depth = (if step s + 1 > max_depth s then step s + 1 else max_depth s),
                  draws = draws s\<rparr>"
proof -
  from assms obtain m1 where m1: "setitem (mat s) (popped cfg s) (code_num c_current) = Inr m1"
    and r1: "(if popped cfg s = endp cfg then
           bindE (setitem m1 (startp cfg) (code_num c_start)) (\<lambda>m2.
           bindE (setitem m2 (popped cfg s) (code_num c_end)) (\<lambda>m3.
           Inr (True, \<lparr>mat = m3, stack = snd (pop_stack (strategy cfg) (stack s)), step = step s + 1, explored = explored s + 1,
                       walked = walked s + 1, max_depth = (if step s + 1 > max_depth s then step s + 1 else max_depth s), draws = draws s\<rparr>)))
         else
           bindE (setitem m1 (popped cfg s) (code_num c_visited)) (\<lambda>m2.
           bindE (admissible m2 (prospective (popped cfg s))) (\<lambda>next.
           bindE (if verbosity cfg \<ge> 3 then setitem m2 (popped cfg s) (code_num c_current)
                  else Inr m2) (\<lambda>m3.
           Inr (False,
                \<lparr>mat = m3,
                 stack = snd (pop_stack (strategy cfg) (stack s)) @ (if strategy cfg = ''a*''
                                 then sorted_by_distance (endp cfg) next
                                 else shuffle rnd (draws s) next),
                 step = step s + 1, explored = explored s + 1, walked = walked s + 1 + 1,
                 max_depth = (if step s + 1 > max_depth s then step s + 1 else max_depth s),
                 draws = (if strategy cfg = ''a*'' then draws s
                          else draws s + length next)\<rparr>))))) = Inr (True, s')"
    unfolding solve_iter_def Let_def popped_def by (erule bindE_InrE)
  have eq: "popped cfg s = endp cfg"
  proof (rule ccontr)
    assume "popped cfg s \<noteq> endp cfg"
    with r1 show False by (auto elim!: bindE_InrE)
  qed
  with r1 obtain m2 m3 where
    "setitem m1 (startp cfg) (code_num c_start) = Inr m2"
    "setitem m2 (popped cfg s) (code_num c_end) = Inr m3"
    "s' = \<lparr>mat = m3, stack = snd (pop_stack (strategy cfg) (stack s)),
                  step = step s + 1, explored = explored s + 1, walked = walked s + 1,
                  max_depth = (if step s + 1 > max_depth s then step s + 1 else max_depth s),
                  draws = draws s\<rparr>"
    by (simp only: simp_thms if_True) (elim bindE_InrE, simp only: sum.inject prod.inject simp_thms)
  with m1 eq show ?thesis by blast
qed

lemma pops_counters:
  assumes "pops k rnd cfg s = Some (found, s')"
    and "step s = j" "explored s = j" "max_depth s = j" "walked s = 2 * j"
  shows "step s' = j + k \<and> explored s' = j + k \<and> max_depth s' = j + k
       \<and> walked s' = (if found then 2 * (j + k) - 1 else 2 * (j + k)) \<and> (found \<longrightarrow> 1 \<le> k)"
  using assms
proof (induction k arbitrary: s j)
  case 0
  then show ?case by auto
next
  case (Suc k)
  from Suc.prems(1) have ne: "stack s \<noteq> []" by (auto split: if_splits)
  from Suc.prems(1) ne obtain r where r: "solve_iter rnd cfg s = Inr r"
    by (auto split: sum.splits)
  show ?case
  proof (cases "fst r")
    case True
    with Suc.prems(1) ne r have k0: "k = 0" and res: "r = (found, s')"
      by (auto split: if_splits)
    with True have f: "found" by simp
    from r res f have "solve_iter rnd cfg s = Inr (True, s')" by simp
    from solve_iter_found[OF this] Suc.prems(2-) k0 f show ?thesis
      by auto
  next
    case False
    then obtain s1 where r1: "r = (False, s1)" by (cases r) auto
    with Suc.prems(1) ne r have rec: "pops k rnd cfg s1 = Some (found, s')" by simp
    from r r1 have "solve_iter rnd cfg s = Inr (False, s1)" by simp
    from solve_iter_continue[OF this] Suc.prems(2-)
    have c: "step s1 = Suc j" "explored s1 = Suc j" "max_depth s1 = Suc j" "walked s1 = 2 * Suc j"
      by auto
    from Suc.IH[OF rec c] show ?thesis by auto
  qed
qed

lemma solve_init_state:
  assumes "solve_init maze strat verb = Inr (cfg, s0)"
  shows "\<exists>m. string_to_array_maze maze = Inr m \<and> mat s0 = m
     \<and> first_coord (nonzero_eq m (code_num c_start)) = Inr (startp cfg)
     \<and> first_coord (nonzero_eq m (code_num c_end)) = Inr (endp cfg)
     \<and> stack s0 = [startp cfg] \<and> step s0 = 0 \<and> explored s0 = 0 \<and> walked s0 = 0
     \<and> max_depth s0 = 0 \<and> draws s0 = 0 \<and> strategy cfg = strat \<and> verbosity cfg = verb
     \<and> strat \<in> set [''dfs'', ''bfs'', ''a*'']"
  using assms unfolding solve_init_def
  by (auto simp: bindE_Inr_iff split: if_splits)

text \<open>
  What the loop returns is what \<open>pops\<close> describes: a run that finds End after \<open>n\<close> passes
  at most made \<open>k \<le> n\<close> pops, the last of them the End cell.
\<close>

lemma solve_loop_pops:
  "solve_loop n rnd cfg s = Some (Inr (out, s')) \<Longrightarrow>
   \<exists>k. k \<le> n \<and> pops k rnd cfg s = Some (out = Found, s')
       \<and> (out = Found \<longrightarrow> 1 \<le> k) \<and> (out = Exhausted \<longrightarrow> stack s' = [])"
proof (induction n arbitrary: s)
  case 0
  then show ?case by simp
next
  case (Suc n)
  show ?case
  proof (cases "stack s = []")
    case True
    with Suc.prems have "out = Exhausted" "s' = s" by simp_all
    with True have "pops 0 rnd cfg s = Some (out = Found, s') \<and> stack s' = []" by simp
    then show ?thesis by (intro exI[of _ 0]) (simp add: \<open>out = Exhausted\<close>)
  next
    case ne: False
    with Suc.prems obtain r where r: "solve_iter rnd cfg s = Inr r"
      by (auto split: sum.splits)
    show ?thesis
    proof (cases "fst r")
      case True
      with Suc.prems ne r have o: "out = Found" "s' = snd r" by simp_all
      with ne r True have "pops (Suc 0) rnd cfg s = Some (out = Found, s')"
        by (cases r) simp
      with o show ?thesis by (intro exI[of _ "Suc 0"]) simp
    next
      case False
      with Suc.prems ne r have "solve_loop n rnd cfg (snd r) = Some (Inr (out, s'))" by simp
      from Suc.IH[OF this] obtain k where k: "k \<le> n"
        "pops k rnd cfg (snd r) = Some (out = Found, s')"
        "out = Found \<longrightarrow> 1 \<le> k" "out = Exhausted \<longrightarrow> stack s' = []" by blast
      from ne r False k(2) have "pops (Suc k) rnd cfg s = Some (out = Found, s')" by simp
      with k show ?thesis by (intro exI[of _ "Suc k"]) simp
    qed
  qed
qed

section \<open>Counters of the solver\<close>

text \<open>
  C10. After the \<open>k\<close>-th pop of \<open>solve\<close>, for \<open>k \<ge> 1\<close> and every strategy, the counters
  \<open>step\<close>, \<open>explored\<close> and \<open>max_depth\<close> all equal \<open>k\<close>, and \<open>walked\<close> is \<open>2k - 1\<close> when
  the cell popped was the End cell and \<open>2k\<close> otherwise.
\<close>

theorem solve_counters:
  assumes "solve_init maze strat verb = Inr (cfg, s0)"
    and "pops k rnd cfg s0 = Some (found, s)" and "1 \<le> k"
  shows "step s = k \<and> explored s = k \<and> max_depth s = k
       \<and> walked s = (if found then 2 * k - 1 else 2 * k)"
proof -
  from solve_init_state[OF assms(1)]
  have "step s0 = 0" "explored s0 = 0" "max_depth s0 = 0" "walked s0 = 2 * 0"
    by auto
  from pops_counters[OF assms(2) this] show ?thesis by simp
qed


theorem solve_counters_witness:
  "\<exists>cfg s0 s. solve_init (''#####'' @ [NL] @ ''#& !#'' @ [NL] @ ''#####'') ''dfs'' 0 = Inr (cfg, s0)
     \<and> pops 3 (\<lambda>_. 0) cfg s0 = Some (True, s) \<and> (1::nat) \<le> 3
     \<and> step s = 3 \<and> explored s = 3 \<and> max_depth s = 3 \<and> walked s = 5"
proof -
  have ev: "case solve_init (''#####'' @ [NL] @ ''#& !#'' @ [NL] @ ''#####'') ''dfs'' 0 of
          Inl e \<Rightarrow> False
        | Inr cs \<Rightarrow> (case pops 3 (\<lambda>_. 0) (fst cs) (snd cs) of None \<Rightarrow> False | Some r \<Rightarrow> fst r)"
    by code_simp
  then obtain cfg s0 s where
    i: "solve_init (''#####'' @ [NL] @ ''#& !#'' @ [NL] @ ''#####'') ''dfs'' 0 = Inr (cfg, s0)"
    and p: "pops 3 (\<lambda>_. 0) cfg s0 = Some (True, s)"
    by (auto split: sum.splits option.splits)
  from solve_counters[OF i p] have "step s = 3 \<and> explored s = 3 \<and> max_depth s = 3 \<and> walked s = 5"
    by simp
  with i p show ?thesis by auto
qed


section \<open>The greedy strategy\<close>

lemma admissible_filter:
  "admissible m ps = Inr r \<Longrightarrow>
   r = filter (\<lambda>p. getitem m p \<notin> set [Inr (code_num c_wall), Inr (code_num c_visited)]) ps"
proof (induction ps arbitrary: r)
  case Nil
  then show ?case by simp
next
  case (Cons p ps)
  from Cons.prems obtain v r' where v: "getitem m p = Inr v" and r': "admissible m ps = Inr r'"
    and r: "r = (if v \<notin> set [code_num c_wall, code_num c_visited] then p # r' else r')"
    by (auto split: sum.splits)
  from Cons.IH[OF r'] v r show ?case by auto
qed

lemma setitem_twice:
  "setitem m p a = Inr m1 \<Longrightarrow> setitem m1 p b = setitem m p b"
  by (auto simp: setitem_def split: sum.splits)





section \<open>Malformed maze text\<close>

lemma parse_char_unknown:
  "c \<notin> set (map code_char codes) \<Longrightarrow> parse_char y (x, c) m = Inr m"
  by (simp add: parse_char_def store_code_def codes_def)

text \<open>
  C5 (counterexample). A maze text with a character outside the seven of the table is
  not refused: the character is read as a Path cell, the loop runs three passes and
  finds End.
\<close>

theorem solve_unknown_character_explores:
  "map_option (map_sum id fst)
     (solve 3 (tape []) (''#####'' @ [NL] @ ''#&x!#'' @ [NL] @ ''#####'') ''dfs'' 0)
   = Some (Inr Found)"
  by code_simp

text \<open>
  C5 (amended). For a valid strategy and a text that parses to an array without a Start
  cell or without an End cell, \<open>solve\<close> raises IndexError before the first pop, whatever
  the fuel. A character that the table does not have is skipped by the parser, which
  leaves its cell as it was (Path in a fresh array).
\<close>

theorem solve_missing_mark_index_error:
  "(strat \<in> set [''dfs'', ''bfs'', ''a*''] \<and> string_to_array_maze maze = Inr m
      \<and> (nonzero_eq m (code_num c_start) = [] \<or> nonzero_eq m (code_num c_end) = [])
      \<longrightarrow> solve fuel rnd maze strat verb = Some (Inl IndexError))
   \<and> (c \<notin> set (map code_char codes) \<longrightarrow> parse_char y (x, c) m' = Inr m')"
proof (intro conjI impI)
  assume a: "strat \<in> set [''dfs'', ''bfs'', ''a*''] \<and> string_to_array_maze maze = Inr m
      \<and> (nonzero_eq m (code_num c_start) = [] \<or> nonzero_eq m (code_num c_end) = [])"
  then have "solve_init maze strat verb = Inl IndexError"
    unfolding solve_init_def
    by (auto simp: bindE_def first_coord_def split: list.splits sum.splits)
  then show "solve fuel rnd maze strat verb = Some (Inl IndexError)"
    by (simp add: solve_def)
next
  assume "c \<notin> set (map code_char codes)"
  then show "parse_char y (x, c) m' = Inr m'" by (rule parse_char_unknown)
qed

theorem solve_missing_mark_index_error_witness:
  "''dfs'' \<in> set [''dfs'', ''bfs'', ''a*'']
   \<and> map_sum id (\<lambda>m. nonzero_eq m (code_num c_end)) (string_to_array_maze (''###'' @ [NL] @ ''#&#'' @ [NL] @ ''###'')) = Inr []
   \<and> solve 0 (tape []) (''###'' @ [NL] @ ''#&#'' @ [NL] @ ''###'') ''dfs'' 0 = Some (Inl IndexError)
   \<and> CHR ''x'' \<notin> set (map code_char codes)
   \<and> parse_char 0 (0, CHR ''x'') (zeros 1 1) = Inr (zeros 1 1)"
proof -
  have e: "map_sum id (\<lambda>m. nonzero_eq m (code_num c_end)) (string_to_array_maze (''###'' @ [NL] @ ''#&#'' @ [NL] @ ''###'')) = Inr []"
    by code_simp
  then obtain m where m: "string_to_array_maze (''###'' @ [NL] @ ''#&#'' @ [NL] @ ''###'') = Inr m"
    and n: "nonzero_eq m (code_num c_end) = []"
    by (cases "string_to_array_maze (''###'' @ [NL] @ ''#&#'' @ [NL] @ ''###'')") auto
  have x: "CHR ''x'' \<notin> set (map code_char codes)"
    by (simp add: codes_def code_defs)
  from solve_missing_mark_index_error[of "''dfs''" "''###'' @ [NL] @ ''#&#'' @ [NL] @ ''###''" m 0 "tape []" 0 "CHR ''x''" 0 0 "zeros 1 1"]
    m n x e show ?thesis by simp
qed


section \<open>Termination of the solver\<close>

lemma pingpong_step:
  assumes "strategy cfg = ''a*''" and "3 \<le> verbosity cfg" and "endp cfg = (1, 1)"
    and "pingpong s"
  shows "\<exists>s'. solve_iter rnd cfg s = Inr (False, s') \<and> pingpong s'"
proof -
  from assms(4) have "last (stack s) = (1, 2) \<or> last (stack s) = (1, 3)"
    unfolding pingpong_def by blast
  then show ?thesis
  proof
    assume st: "last (stack s) = (1, 2)"
    with assms show ?thesis
      unfolding pingpong_def solve_iter_def Let_def
      by (auto simp: pop_stack_def setitem_def getitem_def norm_index_def bindE_def
          prospective_def code_defs sorted_by_distance_code butlast_append)
  next
    assume st: "last (stack s) = (1, 3)"
    with assms show ?thesis
      unfolding pingpong_def solve_iter_def Let_def
      by (auto simp: pop_stack_def setitem_def getitem_def norm_index_def bindE_def
          prospective_def code_defs sorted_by_distance_code butlast_append)
  qed
qed

lemma pingpong_forever:
  assumes "strategy cfg = ''a*''" and "3 \<le> verbosity cfg" and "endp cfg = (1, 1)"
  shows "pingpong s \<Longrightarrow> solve_loop n rnd cfg s = None"
proof (induction n arbitrary: s)
  case 0
  then show ?case by simp
next
  case (Suc n)
  from Suc.prems have ne: "stack s \<noteq> []" unfolding pingpong_def by auto
  from pingpong_step[OF assms Suc.prems] obtain s' where
    s': "solve_iter rnd cfg s = Inr (False, s')" and p: "pingpong s'" by blast
  from Suc.IH[OF p] ne s' show ?case by simp
qed

text \<open>
  C6 (the code at a failing input). At verbosity 3 a pass ends by marking the popped
  cell Current again, so no cell stays Visited. On the corridor below, with Start
  between End and one more open cell, the strategy \<open>a*\<close> pops the cell farthest from End
  each time and moves between the two open cells for ever: the loop does not end with
  any amount of fuel.
\<close>

theorem solve_verbose_greedy_never_ends:
  "solve n rnd (''#####'' @ [NL] @ ''#!& #'' @ [NL] @ ''#####'') ''a*'' 3 = None"
proof -
  have "case solve_init (''#####'' @ [NL] @ ''#!& #'' @ [NL] @ ''#####'') ''a*'' 3 of
          Inl e \<Rightarrow> False
        | Inr cs \<Rightarrow> strategy (fst cs) = ''a*'' \<and> verbosity (fst cs) = 3 \<and> endp (fst cs) = (1, 1)
            \<and> nrows (mat (snd cs)) = 3 \<and> ncols (mat (snd cs)) = 5
            \<and> cell (mat (snd cs)) (0, 2) = 1 \<and> cell (mat (snd cs)) (2, 2) = 1
            \<and> cell (mat (snd cs)) (0, 3) = 1 \<and> cell (mat (snd cs)) (2, 3) = 1
            \<and> cell (mat (snd cs)) (1, 4) = 1 \<and> cell (mat (snd cs)) (1, 1) = 3
            \<and> cell (mat (snd cs)) (1, 2) = 2 \<and> cell (mat (snd cs)) (1, 3) = 0
            \<and> stack (snd cs) = [(1, 2)]"
    by code_simp
  then obtain cfg s where i: "solve_init (''#####'' @ [NL] @ ''#!& #'' @ [NL] @ ''#####'') ''a*'' 3 = Inr (cfg, s)"
    and c: "strategy cfg = ''a*''" "3 \<le> verbosity cfg" "endp cfg = (1, 1)"
    and p: "nrows (mat s) = 3" "ncols (mat s) = 5"
            "cell (mat s) (0, 2) = 1" "cell (mat s) (2, 2) = 1"
            "cell (mat s) (0, 3) = 1" "cell (mat s) (2, 3) = 1"
            "cell (mat s) (1, 4) = 1" "cell (mat s) (1, 1) = 3"
            "cell (mat s) (1, 2) = 2" "cell (mat s) (1, 3) = 0"
            "stack s = [(1, 2)]"
    by (auto split: sum.splits)
  from p have "pingpong s" unfolding pingpong_def by simp
  from pingpong_forever[OF c this] i show ?thesis by (simp add: solve_def)
qed


section \<open>Bounds of the accesses of the solver\<close>

lemma getitem_in_bounds: "in_bounds m p \<Longrightarrow> getitem m p = Inr (cell_at m p)"
  by (simp add: in_bounds_def getitem_def norm_index_def cell_at_def)

lemma setitem_in_bounds:
  "in_bounds m p \<Longrightarrow>
   setitem m p v = Inr (m\<lparr>cell := (cell m)((nat (fst p), nat (snd p)) := v)\<rparr>)"
  by (simp add: in_bounds_def setitem_def norm_index_def)

lemma interior:
  assumes "border_walls m" and "in_bounds m p" and "cell_at m p \<noteq> code_num c_wall"
  shows "1 \<le> fst p \<and> fst p + 1 < int (nrows m) \<and> 1 \<le> snd p \<and> snd p + 1 < int (ncols m)"
proof -
  have nb: "\<not> on_border m (nat (fst p), nat (snd p))"
    using assms(1,3) unfolding border_walls_def cell_at_def by blast
  with assms(2) show ?thesis
    unfolding on_border_def in_bounds_def by (auto simp: nat_less_iff) 
qed

lemma prospective_in_bounds:
  assumes "border_walls m" and "in_bounds m p" and "cell_at m p \<noteq> code_num c_wall"
  shows "\<forall>q \<in> set (prospective p). in_bounds m q"
  using interior[OF assms] unfolding prospective_def in_bounds_def by auto


lemma mset_remove_nth:
  "i < length xs \<Longrightarrow> add_mset (xs ! i) (mset (remove_nth i xs)) = mset xs"
proof -
  assume "i < length xs"
  then have "xs = take i xs @ xs ! i # drop (Suc i) xs" by (rule id_take_nth_drop)
  then have "mset xs = mset (take i xs @ xs ! i # drop (Suc i) xs)" by simp
  then show ?thesis by (simp add: remove_nth_def)
qed

lemma length_remove_nth: "i < length xs \<Longrightarrow> length (remove_nth i xs) = length xs - 1"
  by (simp add: remove_nth_def)

lemma mset_shuffle_n: "length xs = n \<Longrightarrow> mset (shuffle_n n rnd k xs) = mset xs"
proof (induction n arbitrary: xs k)
  case 0
  then show ?case by simp
next
  case (Suc n)
  then have ne: "xs \<noteq> []" by auto
  let ?i = "rnd k mod length xs"
  have lt: "?i < length xs" using ne by simp
  have "length (remove_nth ?i xs) = n" using Suc.prems lt by (simp add: length_remove_nth)
  from Suc.IH[OF this] ne mset_remove_nth[OF lt] show ?case by simp
qed

lemma mset_shuffle: "mset (shuffle rnd k xs) = mset xs"
  by (simp add: shuffle_def mset_shuffle_n)

lemma set_shuffle: "set (shuffle rnd k xs) = set xs"
  by (metis mset_shuffle set_mset_mset)

lemma set_sorted_by_distance: "set (sorted_by_distance e xs) = set xs"
  by (simp add: sorted_by_distance_def)

lemma popped_in_stack: "stack s \<noteq> [] \<Longrightarrow> popped cfg s \<in> set (stack s)"
  by (simp add: popped_def pop_stack_def)

lemma rest_in_stack: "set (snd (pop_stack st xs)) \<subseteq> set xs"
  by (cases xs) (auto simp: pop_stack_def dest: in_set_butlastD)

lemma set_coords: "set (coords m) = {q. fst q < nrows m \<and> snd q < ncols m}"
  by (auto simp: coords_def)

lemma border_walls_code [code]:
  "border_walls m = list_all (\<lambda>q. on_border m q \<longrightarrow> cell m q = code_num c_wall) (coords m)"
  unfolding border_walls_def list_all_iff set_coords
  by (auto simp: on_border_def)

lemma first_coord_nonzero:
  assumes "first_coord (nonzero_eq m v) = Inr p"
  shows "in_bounds m p \<and> cell_at m p = v"
proof -
  from assms obtain q qs where q: "nonzero_eq m v = q # qs" and p: "p = (int (fst q), int (snd q))"
    by (auto simp: first_coord_def split: list.splits)
  from q have "q \<in> set (nonzero_eq m v)" by simp
  then have "q \<in> set (coords m)" and "cell m q = v" by (auto simp: nonzero_eq_def)
  with p show ?thesis by (auto simp: set_coords in_bounds_def cell_at_def)
qed

text \<open>
  The view \<open>crop H W\<close> of an array keeps its cells, and a coordinate inside the view is
  inside the array.
\<close>

lemma crop_simps [simp]:
  "nrows (crop H W m) = H" "ncols (crop H W m) = W" "cell (crop H W m) = cell m"
  "cell_at (crop H W m) p = cell_at m p"
  by (simp_all add: crop_def cell_at_def)

lemma crop_in_bounds:
  "in_bounds (crop H W m) p \<Longrightarrow> H \<le> nrows m \<Longrightarrow> W \<le> ncols m \<Longrightarrow> in_bounds m p"
  by (auto simp: in_bounds_def)

text \<open>
  A pass that does not find End keeps the invariant, a pass from a state of the invariant
  raises nothing, and so every state that the loop reaches has the invariant.
\<close>

lemma safe_pass:
  assumes sf: "safe H W cfg s" and ne: "stack s \<noteq> []"
    and it: "solve_iter rnd cfg s = Inr (False, s')"
  shows "safe H W cfg s'"
proof -
  let ?c = "popped cfg s"
  let ?q = "(nat (fst ?c), nat (snd ?c))"
  let ?v = "crop H W (mat s)"
  from sf ne popped_in_stack[OF ne, of cfg]
  have hw: "H \<le> nrows (mat s)" "W \<le> ncols (mat s)"
    and bw: "border_walls ?v" and cv: "in_bounds ?v ?c"
    and cw: "cell_at (mat s) ?c \<noteq> code_num c_wall"
    and sb: "in_bounds ?v (startp cfg)"
    unfolding safe_def by auto
  have cb: "in_bounds (mat s) ?c" by (rule crop_in_bounds[OF cv hw])
  have cw': "cell_at ?v ?c \<noteq> code_num c_wall" using cw by simp
  from solve_iter_continue[OF it] obtain m1 m2 nxt m3 where
    m1: "setitem (mat s) ?c (code_num c_current) = Inr m1"
    and m2: "setitem m1 ?c (code_num c_visited) = Inr m2"
    and nx: "admissible m2 (prospective ?c) = Inr nxt"
    and m3: "(if 3 \<le> verbosity cfg then setitem m2 ?c (code_num c_current) else Inr m2) = Inr m3"
    and ms: "mat s' = m3"
    and st: "stack s' = snd (pop_stack (strategy cfg) (stack s))
                @ (if strategy cfg = ''a*'' then sorted_by_distance (endp cfg) nxt
                   else shuffle rnd (draws s) nxt)"
    by auto
  have m1': "m1 = (mat s)\<lparr>cell := (cell (mat s))(?q := code_num c_current)\<rparr>"
    using m1 setitem_in_bounds[OF cb] by simp
  have b1: "in_bounds m1 ?c" using cb m1' by (simp add: in_bounds_def)
  have m2': "m2 = (mat s)\<lparr>cell := (cell (mat s))(?q := code_num c_visited)\<rparr>"
    using m2 setitem_in_bounds[OF b1] m1' by simp
  have b2: "in_bounds m2 ?c" using cb m2' by (simp add: in_bounds_def)
  obtain v where m3': "m3 = (mat s)\<lparr>cell := (cell (mat s))(?q := v)\<rparr>"
    and v: "v \<noteq> code_num c_wall"
    using m3 setitem_in_bounds[OF b2] m2'
    by (cases "3 \<le> verbosity cfg") (auto simp: code_defs)
  have shape: "nrows m3 = nrows (mat s)" "ncols m3 = ncols (mat s)"
    using m3' by simp_all
  have inb: "\<And>p. in_bounds (crop H W m3) p = in_bounds ?v p"
    by (simp add: in_bounds_def)
  have nb: "\<not> on_border ?v ?q"
    using bw cw unfolding border_walls_def cell_at_def by auto
  have bw3: "border_walls (crop H W m3)"
    unfolding border_walls_def
  proof (intro allI impI)
    fix q assume ob: "on_border (crop H W m3) q"
    then have ob': "on_border ?v q" by (simp add: on_border_def)
    with nb have "q \<noteq> ?q" by auto
    moreover from ob' bw have "cell ?v q = code_num c_wall"
      unfolding border_walls_def by blast
    ultimately show "cell (crop H W m3) q = code_num c_wall"
      using m3' by simp
  qed
  have keep: "\<And>p. cell_at (mat s) p \<noteq> code_num c_wall \<Longrightarrow> cell_at m3 p \<noteq> code_num c_wall"
    using m3' v by (simp add: cell_at_def)
  have pb: "\<forall>q \<in> set (prospective ?c). in_bounds ?v q"
    by (rule prospective_in_bounds[OF bw cv cw'])
  have newok: "in_bounds (crop H W m3) p \<and> cell_at m3 p \<noteq> code_num c_wall" if "p \<in> set nxt" for p
  proof -
    from that admissible_filter[OF nx]
    have pp: "p \<in> set (prospective ?c)"
      and g: "getitem m2 p \<noteq> Inr (code_num c_wall)" by auto
    from pp pb have iv: "in_bounds ?v p" by blast
    have ib: "in_bounds (mat s) p" by (rule crop_in_bounds[OF iv hw])
    then have "in_bounds m2 p" using m2' by (simp add: in_bounds_def)
    from getitem_in_bounds[OF this] g have c2: "cell_at m2 p \<noteq> code_num c_wall" by simp
    have "cell_at m3 p \<noteq> code_num c_wall"
      using c2 m2' m3' v by (auto simp: cell_at_def split: if_splits)
    with iv inb show ?thesis by simp
  qed
  have oldok: "in_bounds (crop H W m3) p \<and> cell_at m3 p \<noteq> code_num c_wall"
    if "p \<in> set (snd (pop_stack (strategy cfg) (stack s)))" for p
  proof -
    from that have "p \<in> set (stack s)"
      using rest_in_stack[of "strategy cfg" "stack s"] by auto
    with sf have a: "in_bounds ?v p" and b: "cell_at (mat s) p \<noteq> code_num c_wall"
      unfolding safe_def by auto
    from a have "in_bounds (crop H W m3) p" by (simp only: inb)
    with keep[OF b] show ?thesis by blast
  qed
  have all: "\<forall>p \<in> set (stack s'). in_bounds (crop H W m3) p \<and> cell_at m3 p \<noteq> code_num c_wall"
  proof
    fix p assume "p \<in> set (stack s')"
    with st have "p \<in> set (snd (pop_stack (strategy cfg) (stack s))) \<or> p \<in> set nxt"
      by (cases "strategy cfg = ''a*''") (simp_all add: set_shuffle set_sorted_by_distance)
    with newok oldok show "in_bounds (crop H W m3) p \<and> cell_at m3 p \<noteq> code_num c_wall" by blast
  qed
  from sb have "in_bounds (crop H W m3) (startp cfg)" by (simp only: inb)
  with bw3 all ms hw shape show ?thesis unfolding safe_def by simp
qed

lemma safe_progress:
  assumes sf: "safe H W cfg s" and ne: "stack s \<noteq> []"
  shows "\<exists>r. solve_iter rnd cfg s = Inr r"
proof -
  let ?c = "popped cfg s"
  let ?q = "(nat (fst ?c), nat (snd ?c))"
  let ?v = "crop H W (mat s)"
  from sf ne popped_in_stack[OF ne, of cfg]
  have hw: "H \<le> nrows (mat s)" "W \<le> ncols (mat s)"
    and bw: "border_walls ?v" and cv: "in_bounds ?v ?c"
    and cw: "cell_at (mat s) ?c \<noteq> code_num c_wall"
    and sv: "in_bounds ?v (startp cfg)"
    unfolding safe_def by auto
  have cb: "in_bounds (mat s) ?c" by (rule crop_in_bounds[OF cv hw])
  have sb: "in_bounds (mat s) (startp cfg)" by (rule crop_in_bounds[OF sv hw])
  have cw': "cell_at ?v ?c \<noteq> code_num c_wall" using cw by simp
  have pv: "\<forall>q \<in> set (prospective ?c). in_bounds ?v q"
    by (rule prospective_in_bounds[OF bw cv cw'])
  have pb: "\<forall>q \<in> set (prospective ?c). in_bounds (mat s) q"
    using pv crop_in_bounds[OF _ hw] by blast
  have adm: "\<exists>r. admissible m ps = Inr r" if "\<forall>q \<in> set ps. in_bounds m q" for m ps
    using that by (induction ps) (auto simp: getitem_in_bounds)
  define m1 where "m1 = (mat s)\<lparr>cell := (cell (mat s))(?q := code_num c_current)\<rparr>"
  define m2 where "m2 = m1\<lparr>cell := (cell m1)(?q := code_num c_visited)\<rparr>"
  have s1: "setitem (mat s) ?c (code_num c_current) = Inr m1"
    using setitem_in_bounds[OF cb] by (simp add: m1_def)
  have b1: "in_bounds m1 ?c" "in_bounds m1 (startp cfg)"
    using cb sb by (simp_all add: in_bounds_def m1_def)
  have s2: "setitem m1 ?c (code_num c_visited) = Inr m2"
    using setitem_in_bounds[OF b1(1)] by (simp add: m2_def)
  have b2: "in_bounds m2 ?c" "\<forall>q \<in> set (prospective ?c). in_bounds m2 q"
    using cb pb by (simp_all add: in_bounds_def m1_def m2_def)
  from adm[OF b2(2)] obtain nxt where nx: "admissible m2 (prospective ?c) = Inr nxt" by blast
  obtain m3 where s3: "(if 3 \<le> verbosity cfg then setitem m2 ?c (code_num c_current) else Inr m2) = Inr m3"
    using setitem_in_bounds[OF b2(1)] by (cases "3 \<le> verbosity cfg") auto
  obtain f1 where f1: "setitem m1 (startp cfg) (code_num c_start) = Inr f1" and fb: "in_bounds f1 ?c"
    using setitem_in_bounds[OF b1(2)] b1(1) by (simp add: in_bounds_def)
  obtain f2 where f2: "setitem f1 ?c (code_num c_end) = Inr f2"
    using setitem_in_bounds[OF fb] by simp
  show ?thesis
  proof (cases "?c = endp cfg")
    case True
    show ?thesis
      unfolding solve_iter_def Let_def popped_def[symmetric] bindE_def s1 sum.case
        if_P[OF True] f1 f2
      by blast
  next
    case False
    show ?thesis
      unfolding solve_iter_def Let_def popped_def[symmetric] bindE_def s1 sum.case
        if_not_P[OF False] s2 nx s3
      by blast
  qed
qed

lemma safe_pops:
  "safe H W cfg s0 \<Longrightarrow> pops k rnd cfg s0 = Some (False, s) \<Longrightarrow> safe H W cfg s"
proof (induction k arbitrary: s0)
  case 0
  then show ?case by simp
next
  case (Suc k)
  from Suc.prems(2) have ne: "stack s0 \<noteq> []" by (auto split: if_splits)
  from Suc.prems(2) ne obtain s1 where it: "solve_iter rnd cfg s0 = Inr (False, s1)"
    and rest: "pops k rnd cfg s1 = Some (False, s)"
    by (auto split: sum.splits if_splits)
  from safe_pass[OF Suc.prems(1) ne it] rest show ?case by (rule Suc.IH)
qed

text \<open>
  What the parser stores: the cell of a character of the text holds \<open>put\<close> of that
  character, every other cell is 0, and the array has one row for each piece of the split
  and the width of the first piece.
\<close>

lemma put_wall: "put (code_char c_wall) v = code_num c_wall"
  by (simp add: put_def codes_def code_defs)

lemma parse_char_put:
  assumes "parse_char y (x, c) z = Inr z'"
  shows "z' = z\<lparr>cell := (cell z)((y, x) := put c (cell z (y, x)))\<rparr>"
  using assms unfolding parse_char_def codes_def put_def store_code_def
  by (auto simp: code_defs setitem_def norm_index_def split: if_splits sum.splits)

lemma parse_chars_put:
  "foldM (parse_char y) (enumerate k cs) z = Inr z' \<Longrightarrow>
     nrows z' = nrows z \<and> ncols z' = ncols z
     \<and> (\<forall>q. cell z' q = (if fst q = y \<and> k \<le> snd q \<and> snd q < k + length cs
                           then put (cs ! (snd q - k)) (cell z q) else cell z q))"
proof (induction cs arbitrary: k z)
  case Nil
  then show ?case by simp
next
  case (Cons c cs)
  from Cons.prems obtain z1 where pc: "parse_char y (k, c) z = Inr z1"
    and rest: "foldM (parse_char y) (enumerate (Suc k) cs) z1 = Inr z'"
    by (auto split: sum.splits)
  note z1 = parse_char_put[OF pc]
  from Cons.IH[OF rest] have sh: "nrows z' = nrows z1" "ncols z' = ncols z1"
    and c: "\<forall>q. cell z' q = (if fst q = y \<and> Suc k \<le> snd q \<and> snd q < Suc k + length cs
                           then put (cs ! (snd q - Suc k)) (cell z1 q) else cell z1 q)"
    by auto
  have "cell z' q = (if fst q = y \<and> k \<le> snd q \<and> snd q < k + length (c # cs)
                           then put ((c # cs) ! (snd q - k)) (cell z q) else cell z q)" for q
  proof (cases "q = (y, k)")
    case True
    then show ?thesis using c[rule_format, of q] z1 by simp
  next
    case False
    then show ?thesis using c[rule_format, of q] z1
      by (cases q) (auto simp: nth_Cons' Suc_diff_Suc)
  qed
  with sh z1 show ?case by simp
qed

lemma parse_lines_put:
  "foldM parse_line (enumerate j ls) z = Inr z' \<Longrightarrow>
     nrows z' = nrows z \<and> ncols z' = ncols z
     \<and> (\<forall>q. cell z' q = (if j \<le> fst q \<and> fst q < j + length ls
                              \<and> snd q < length (ls ! (fst q - j))
                           then put (ls ! (fst q - j) ! snd q) (cell z q) else cell z q))"
proof (induction ls arbitrary: j z)
  case Nil
  then show ?case by simp
next
  case (Cons l ls)
  from Cons.prems obtain z1 where pl: "parse_line (j, l) z = Inr z1"
    and rest: "foldM parse_line (enumerate (Suc j) ls) z1 = Inr z'"
    by (auto split: sum.splits)
  from pl have "foldM (parse_char j) (enumerate 0 l) z = Inr z1" by (simp add: parse_line_def)
  from parse_chars_put[OF this] have sh1: "nrows z1 = nrows z" "ncols z1 = ncols z"
    and c1: "\<forall>q. cell z1 q = (if fst q = j \<and> snd q < length l
                           then put (l ! snd q) (cell z q) else cell z q)"
    by auto
  from Cons.IH[OF rest] have sh: "nrows z' = nrows z1" "ncols z' = ncols z1"
    and c: "\<forall>q. cell z' q = (if Suc j \<le> fst q \<and> fst q < Suc j + length ls
                              \<and> snd q < length (ls ! (fst q - Suc j))
                           then put (ls ! (fst q - Suc j) ! snd q) (cell z1 q) else cell z1 q)"
    by auto
  have "cell z' q = (if j \<le> fst q \<and> fst q < j + length (l # ls)
                              \<and> snd q < length ((l # ls) ! (fst q - j))
                           then put ((l # ls) ! (fst q - j) ! snd q) (cell z q) else cell z q)" for q
  proof (cases "fst q = j")
    case True
    then show ?thesis using c[rule_format, of q] c1[rule_format, of q] by simp
  next
    case False
    then show ?thesis using c[rule_format, of q] c1[rule_format, of q]
      by (auto simp: nth_Cons' Suc_diff_Suc)
  qed
  with sh sh1 show ?case by simp
qed

lemma parsed_cells:
  assumes "string_to_array_maze maze = Inr m"
  shows "nrows m = length (split_nl maze) \<and> ncols m = length (hd (split_nl maze))
     \<and> (\<forall>q. cell m q = (if fst q < length (split_nl maze)
                              \<and> snd q < length (split_nl maze ! fst q)
                           then put (split_nl maze ! fst q ! snd q) 0 else 0))"
  using parse_lines_put[of 0 "split_nl maze" "zeros (length (split_nl maze)) (length (hd (split_nl maze)))" m]
    assms
  by (simp add: string_to_array_maze_def Let_def zeros_def)

text \<open>
  The rows of the text are the first pieces of the split, and a piece after them is empty.
  So the Start cell lies in the rows, the array is as wide as they are, and the state that
  \<open>solve\<close> starts from has the invariant when the rows have a Wall border.
\<close>

lemma split_nl_not_Nil: "split_nl maze \<noteq> []"
  by (induction maze) (auto split: list.splits)

lemma text_rows_nth:
  "i < length (text_rows maze) \<Longrightarrow>
     i < length (split_nl maze) \<and> text_rows maze ! i = split_nl maze ! i"
  by (auto simp: text_rows_def nth_butlast split: if_splits)

lemma text_rows_beyond:
  assumes "length (text_rows maze) \<le> i" and "i < length (split_nl maze)"
  shows "split_nl maze ! i = []"
proof -
  from assms have l: "last (split_nl maze) = []"
    and "length (text_rows maze) = length (split_nl maze) - 1"
    by (auto simp: text_rows_def split: if_splits)
  with assms have "i = length (split_nl maze) - 1" by simp
  with l show ?thesis using last_conv_nth[OF split_nl_not_Nil, of maze] by simp
qed

lemma text_rows_hd:
  assumes "0 < length (text_rows maze)"
  shows "hd (text_rows maze) = hd (split_nl maze)"
proof -
  from assms have "text_rows maze \<noteq> []" by auto
  then have "hd (text_rows maze) = text_rows maze ! 0" by (simp add: hd_conv_nth)
  also have "\<dots> = split_nl maze ! 0" using text_rows_nth[OF assms] by simp
  also have "\<dots> = hd (split_nl maze)" using split_nl_not_Nil by (simp add: hd_conv_nth)
  finally show ?thesis .
qed

lemma safe_init:
  assumes wb: "wall_bordered (text_rows maze)"
    and init: "solve_init maze strat verb = Inr (cfg, s0)"
  shows "safe (length (text_rows maze)) (length (hd (text_rows maze))) cfg s0"
proof -
  let ?L = "split_nl maze"
  let ?R = "text_rows maze"
  let ?H = "length ?R"
  let ?W = "length (hd ?R)"
  from solve_init_state[OF init] obtain m where
    parse: "string_to_array_maze maze = Inr m" and ms: "mat s0 = m"
    and fc: "first_coord (nonzero_eq m (code_num c_start)) = Inr (startp cfg)"
    and st: "stack s0 = [startp cfg]"
    by blast
  from parsed_cells[OF parse] have nr: "nrows m = length ?L" and nc: "ncols m = length (hd ?L)"
    and cells: "\<And>q. cell m q = (if fst q < length ?L \<and> snd q < length (?L ! fst q)
                           then put (?L ! fst q ! snd q) 0 else 0)"
    by auto
  note wb' = wb[unfolded wall_bordered_def]
  have rect: "length r = ?W" if "r \<in> set ?R" for r
    using wb'[THEN conjunct1] that by (rule bspec)
  have wall: "?R ! i ! j = code_char c_wall"
    if "i < ?H" and "j < length (?R ! i)"
      and "i = 0 \<or> Suc i = ?H \<or> j = 0 \<or> Suc j = length (?R ! i)" for i j
  proof -
    from that(1) have "i \<in> set [0..<?H]" by simp
    from bspec[OF wb'[THEN conjunct2] this]
    have a: "\<forall>j \<in> set [0..<length (?R ! i)].
                (i = 0 \<or> Suc i = ?H \<or> j = 0 \<or> Suc j = length (?R ! i))
                \<longrightarrow> ?R ! i ! j = code_char c_wall" .
    from that(2) have "j \<in> set [0..<length (?R ! i)]" by simp
    from bspec[OF a this] that(3) show ?thesis by (rule mp)
  qed
  have row: "i < length ?L \<and> ?L ! i = ?R ! i \<and> length (?R ! i) = ?W" if "i < ?H" for i
    using text_rows_nth[OF that] rect[OF nth_mem[OF that]] by simp
  from first_coord_nonzero[OF fc]
  have sb: "in_bounds m (startp cfg)" and sv: "cell_at m (startp cfg) = code_num c_start"
    by auto
  let ?q = "(nat (fst (startp cfg)), nat (snd (startp cfg)))"
  from sv have "cell m ?q \<noteq> 0" by (simp add: cell_at_def code_defs)
  with cells[of ?q] have q1: "fst ?q < length ?L" and q2: "snd ?q < length (?L ! fst ?q)"
    by (auto split: if_splits)
  have qh: "fst ?q < ?H"
  proof (rule ccontr)
    assume "\<not> fst ?q < ?H"
    then have "?L ! fst ?q = []" using text_rows_beyond[of maze "fst ?q"] q1 by simp
    with q2 show False by simp
  qed
  have hpos: "0 < ?H" by (rule le_less_trans[OF le0 qh])
  from row[OF qh] q2 have qw: "snd ?q < ?W" by simp
  have "?H \<le> length ?L" by (simp add: text_rows_def)
  moreover have "?W = length (hd ?L)" by (simp only: text_rows_hd[OF hpos])
  ultimately have le: "?H \<le> nrows m" "?W \<le> ncols m"
    using nr nc by simp_all
  have sin: "in_bounds (crop ?H ?W m) (startp cfg)"
    using sb qh qw by (auto simp: in_bounds_def nat_less_iff)
  have bw: "border_walls (crop ?H ?W m)"
    unfolding border_walls_def
  proof (intro allI impI)
    fix q assume ob: "on_border (crop ?H ?W m) q"
    then have a: "fst q < ?H" and b: "snd q < ?W"
      and c: "fst q = 0 \<or> Suc (fst q) = ?H \<or> snd q = 0 \<or> Suc (snd q) = ?W"
      by (auto simp: on_border_def)
    note r = row[OF a]
    from r b have b': "snd q < length (?R ! fst q)" by simp
    from c r have c': "fst q = 0 \<or> Suc (fst q) = ?H \<or> snd q = 0 \<or> Suc (snd q) = length (?R ! fst q)"
      by simp
    from wall[OF a b' c'] have "?R ! fst q ! snd q = code_char c_wall" .
    with cells[of q] r b show "cell (crop ?H ?W m) q = code_num c_wall"
      by (simp add: put_wall)
  qed
  from sv have "cell_at m (startp cfg) \<noteq> code_num c_wall" by (simp add: code_defs)
  with le sin bw st ms show ?thesis unfolding safe_def by simp
qed

text \<open>
  C9. For a maze whose text rows are a grid with a Wall border (as the generator writes
  them, a final line break included or not), every pass of the loop of \<open>solve\<close>
  indexes within \<open>[0, H) \<times> [0, W)\<close>, \<open>H\<close> and \<open>W\<close> the height and the width of the rows
  of the text: the popped cell and its four prospective neighbours lie there, so they are
  in the bounds of the array with no negative index that would wrap, and the pass raises
  no IndexError.
\<close>

theorem solve_accesses_in_bounds:
  assumes "wall_bordered (text_rows maze)"
    and "solve_init maze strat verb = Inr (cfg, s0)"
    and "pops k rnd cfg s0 = Some (False, s)"
    and "stack s \<noteq> []"
  shows "(\<forall>p \<in> set (popped cfg s # prospective (popped cfg s)).
            0 \<le> fst p \<and> fst p < int (length (text_rows maze))
            \<and> 0 \<le> snd p \<and> snd p < int (length (hd (text_rows maze)))
            \<and> in_bounds (mat s) p)
         \<and> (\<exists>r. solve_iter rnd cfg s = Inr r)"
proof -
  let ?H = "length (text_rows maze)"
  let ?W = "length (hd (text_rows maze))"
  let ?v = "crop ?H ?W (mat s)"
  have sf: "safe ?H ?W cfg s"
    by (rule safe_pops[OF safe_init[OF assms(1,2)] assms(3)])
  from sf assms(4) popped_in_stack[OF assms(4), of cfg]
  have hw: "?H \<le> nrows (mat s)" "?W \<le> ncols (mat s)"
    and bw: "border_walls ?v" and cv: "in_bounds ?v (popped cfg s)"
    and cw: "cell_at ?v (popped cfg s) \<noteq> code_num c_wall"
    unfolding safe_def by auto
  from prospective_in_bounds[OF bw cv cw] cv
  have v: "\<forall>p \<in> set (popped cfg s # prospective (popped cfg s)). in_bounds ?v p"
    by simp
  have "0 \<le> fst p \<and> fst p < int ?H \<and> 0 \<le> snd p \<and> snd p < int ?W \<and> in_bounds (mat s) p"
    if "p \<in> set (popped cfg s # prospective (popped cfg s))" for p
  proof -
    from v that have i: "in_bounds ?v p" by blast
    from crop_in_bounds[OF i hw] i show ?thesis by (simp add: in_bounds_def)
  qed
  with safe_progress[OF sf assms(4)] show ?thesis by blast
qed

theorem solve_accesses_in_bounds_witness:
  "\<exists>cfg s0 s.
     make_maze 6 6 True True (tape [8, 0, 0, 6, 0, 0, 1, 2, 0, 0, 0, 0, 0, 0, 1, 2, 0, 0, 1]) = Inr (''#####'' @ [NL] @ ''#&! #'' @ [NL] @ ''#####'' @ [NL] @ ''#   #'' @ [NL] @ ''#####'' @ [NL])
     \<and> wall_bordered (text_rows (''#####'' @ [NL] @ ''#&! #'' @ [NL] @ ''#####'' @ [NL] @ ''#   #'' @ [NL] @ ''#####'' @ [NL]))
     \<and> length (text_rows (''#####'' @ [NL] @ ''#&! #'' @ [NL] @ ''#####'' @ [NL] @ ''#   #'' @ [NL] @ ''#####'' @ [NL])) = 5
     \<and> solve_init (''#####'' @ [NL] @ ''#&! #'' @ [NL] @ ''#####'' @ [NL] @ ''#   #'' @ [NL] @ ''#####'' @ [NL]) ''bfs'' 0 = Inr (cfg, s0)
     \<and> nrows (mat s0) = 6 \<and> \<not> border_walls (mat s0)
     \<and> pops 1 (tape []) cfg s0 = Some (False, s) \<and> stack s = [(1, 2)]
     \<and> in_bounds (mat s) (1, 2) \<and> in_bounds (mat s) (0, 2) \<and> in_bounds (mat s) (1, 1)
     \<and> in_bounds (mat s) (2, 2) \<and> in_bounds (mat s) (1, 3)
     \<and> (\<exists>r. solve_iter (tape []) cfg s = Inr r)"
proof -
  let ?M = "''#####'' @ [NL] @ ''#&! #'' @ [NL] @ ''#####'' @ [NL] @ ''#   #'' @ [NL] @ ''#####'' @ [NL]"
  have e: "make_maze 6 6 True True (tape [8, 0, 0, 6, 0, 0, 1, 2, 0, 0, 0, 0, 0, 0, 1, 2, 0, 0, 1]) = Inr ?M"
    by code_simp
  have w: "wall_bordered (text_rows ?M)" by code_simp
  have l: "length (text_rows ?M) = 5" by code_simp
  have "case solve_init ?M ''bfs'' 0 of
          Inl e \<Rightarrow> False
        | Inr cs \<Rightarrow> nrows (mat (snd cs)) = 6 \<and> \<not> border_walls (mat (snd cs))
            \<and> strategy (fst cs) = ''bfs''
            \<and> (case pops 1 (tape []) (fst cs) (snd cs) of None \<Rightarrow> False
                | Some r \<Rightarrow> \<not> fst r \<and> stack (snd r) = [(1, 2)])"
    by code_simp
  then obtain cfg s0 s where
    i: "solve_init ?M ''bfs'' 0 = Inr (cfg, s0)"
    and n: "nrows (mat s0) = 6" and b: "\<not> border_walls (mat s0)"
    and g: "strategy cfg = ''bfs''"
    and p: "pops 1 (tape []) cfg s0 = Some (False, s)" and k: "stack s = [(1, 2)]"
    by (auto split: sum.splits option.splits simp del: pops.simps)
  from k have ne: "stack s \<noteq> []" by simp
  from k g have pp: "popped cfg s = (1, 2)" by (simp add: popped_def pop_stack_def)
  from solve_accesses_in_bounds[OF w i p ne] pp
  have "in_bounds (mat s) (1, 2) \<and> in_bounds (mat s) (0, 2) \<and> in_bounds (mat s) (1, 1)
     \<and> in_bounds (mat s) (2, 2) \<and> in_bounds (mat s) (1, 3)
     \<and> (\<exists>r. solve_iter (tape []) cfg s = Inr r)"
    by (auto simp: prospective_def)
  with e w l i n b p k show ?thesis by blast
qed


section \<open>The generator: shape and border\<close>

lemma setitem_one:
  assumes "in_bounds m p" and "binary m"
  shows "\<exists>m'. setitem m p 1 = Inr m' \<and> nrows m' = nrows m \<and> ncols m' = ncols m \<and> binary m'"
  using assms by (simp add: setitem_in_bounds binary_def)

lemma carve_ok:
  assumes "in_bounds m current" and "in_bounds m chosen" and "binary m"
  shows "\<exists>m'. carve m current chosen = Inr m' \<and> nrows m' = nrows m \<and> ncols m' = ncols m
          \<and> binary m'"
proof -
  have "in_bounds m (fst current - 1, snd current)" if "fst chosen + 2 = fst current"
    using that assms(1,2) by (auto simp: in_bounds_def)
  moreover have "in_bounds m (fst current + 1, snd current)" if "fst chosen - 2 = fst current"
    using that assms(1,2) by (auto simp: in_bounds_def)
  moreover have "in_bounds m (fst current, snd current - 1)" if "snd chosen + 2 = snd current"
    using that assms(1,2) by (auto simp: in_bounds_def)
  moreover have "in_bounds m (fst current, snd current + 1)" if "snd chosen - 2 = snd current"
    using that assms(1,2) by (auto simp: in_bounds_def)
  ultimately show ?thesis
    unfolding carve_def using setitem_one[OF _ assms(3)] assms(3) by auto
qed

lemma set_remove_nth: "set (remove_nth i xs) \<subseteq> set xs"
  unfolding remove_nth_def by (auto dest: in_set_takeD in_set_dropD)

lemma length_shuffle: "length (shuffle rnd k xs) = length xs"
  by (rule mset_eq_length[OF mset_shuffle])

lemma shuffle_Nil_iff: "shuffle rnd k xs = [] \<longleftrightarrow> xs = []"
  using length_shuffle[of rnd k xs] by (metis length_0_conv)

lemma carve_step_ok:
  assumes ok: "gen_ok h w s" and ne: "unvisited s \<noteq> []"
  shows "\<exists>s'. carve_step rnd s = Inr s' \<and> gen_ok h w s'
           \<and> unvisited s' = remove_nth (rnd (gpos s) mod length (unvisited s)) (unvisited s)"
proof -
  let ?i = "rnd (gpos s) mod length (unvisited s)"
  let ?cur = "unvisited s ! ?i"
  let ?unv = "remove_nth ?i (unvisited s)"
  let ?nbs = "filter (\<lambda>n. n \<in> set ?unv \<and> PyTuple n \<notin> set (visiting s)) (two_away ?cur)"
  have lt: "?i < length (unvisited s)" using ne by simp
  then have cur: "in_bounds (gmat s) ?cur" using ok by (simp add: gen_ok_def)
  have unv: "\<forall>p \<in> set ?unv. in_bounds (gmat s) p"
    using ok set_remove_nth[of ?i "unvisited s"] by (auto simp: gen_ok_def)
  show ?thesis
  proof (cases "?nbs = []")
    case True
    with ok unv show ?thesis
      unfolding carve_step_def Let_def gen_ok_def by auto
  next
    case False
    let ?ch = "hd (shuffle rnd (Suc (gpos s)) ?nbs)"
    have "shuffle rnd (Suc (gpos s)) ?nbs \<noteq> []"
      using False by (simp only: shuffle_Nil_iff not_False_eq_True)
    then have "?ch \<in> set (shuffle rnd (Suc (gpos s)) ?nbs)" by simp
    then have "?ch \<in> set ?nbs" by (simp only: set_shuffle)
    then have "?ch \<in> set ?unv" by simp
    with unv have ch: "in_bounds (gmat s) ?ch" by blast
    from ok have bin: "binary (gmat s)" by (simp add: gen_ok_def)
    from carve_ok[OF cur ch bin] obtain m' where
      m': "carve (gmat s) ?cur ?ch = Inr m'" "nrows m' = nrows (gmat s)"
        "ncols m' = ncols (gmat s)" "binary m'" by blast
    have "\<forall>p \<in> set ?unv. in_bounds m' p" using unv m'(2,3) by (simp add: in_bounds_def)
    with False ok m' show ?thesis
      unfolding carve_step_def Let_def gen_ok_def by (simp add: bindE_def)
  qed
qed

lemma carve_loop_ok:
  "gen_ok h w s \<Longrightarrow> \<exists>s'. carve_loop rnd s = Inr s' \<and> gen_ok h w s'"
proof (induction "length (unvisited s)" arbitrary: s rule: less_induct)
  case less
  show ?case
  proof (cases "unvisited s = []")
    case True
    with less.prems show ?thesis by (subst carve_loop.simps) (simp del: carve_loop.simps)
  next
    case False
    from carve_step_ok[OF less.prems False, of rnd] obtain s1 where
      s1: "carve_step rnd s = Inr s1" "gen_ok h w s1"
        "unvisited s1 = remove_nth (rnd (gpos s) mod length (unvisited s)) (unvisited s)"
      by blast
    have "length (unvisited s1) < length (unvisited s)"
      using s1(3) False by (simp add: length_remove_nth)
    from less.hyps[OF this s1(2)] obtain s' where "carve_loop rnd s1 = Inr s'" "gen_ok h w s'"
      by blast
    with False s1(1) show ?thesis by (subst carve_loop.simps) (simp del: carve_loop.simps)
  qed
qed


lemma foldM_setitem_ok:
  "\<forall>p \<in> set ps. in_bounds m p \<Longrightarrow> binary m \<Longrightarrow>
   \<exists>m'. foldM (\<lambda>p m. setitem m p 1) ps m = Inr m' \<and> nrows m' = nrows m \<and> ncols m' = ncols m
        \<and> binary m'"
proof (induction ps arbitrary: m)
  case Nil
  then show ?case by simp
next
  case (Cons p ps)
  from Cons.prems have "in_bounds m p" by simp
  from setitem_one[OF this Cons.prems(2)] obtain m1 where
    m1: "setitem m p 1 = Inr m1" "nrows m1 = nrows m" "ncols m1 = ncols m" "binary m1" by blast
  from Cons.prems(1) m1(2,3) have "\<forall>p \<in> set ps. in_bounds m1 p" by (simp add: in_bounds_def)
  from Cons.IH[OF this m1(4)] m1 show ?case by simp
qed

lemma rooms_in_bounds: "\<forall>p \<in> set (rooms h w). in_bounds (zeros h w) p"
  by (auto simp: rooms_def odds_def in_bounds_def zeros_def)

lemma set_col_ok:
  "0 \<le> j \<Longrightarrow> j < int (ncols m) \<Longrightarrow>
   set_col m j v = Inr (m\<lparr>cell := (\<lambda>q. if snd q = nat j then v else cell m q)\<rparr>)"
  by (simp add: set_col_def norm_index_def)

lemma set_row_ok:
  "0 \<le> i \<Longrightarrow> i < int (nrows m) \<Longrightarrow>
   set_row m i v = Inr (m\<lparr>cell := (\<lambda>q. if fst q = nat i then v else cell m q)\<rparr>)"
  by (simp add: set_row_def norm_index_def)

lemma make_array_ok:
  assumes "1 \<le> w0" and "1 \<le> h0"
  shows "\<exists>m k. make_array w0 h0 rnd = Inr (m, k) \<and> nrows m = h0 - 1 \<and> ncols m = w0 - 1
           \<and> binary m \<and> border_walls m"
proof -
  let ?h = "h0 + 1" and ?w = "w0 + 1"
  have "binary (zeros ?h ?w)" by (simp add: binary_def zeros_def)
  from foldM_setitem_ok[OF rooms_in_bounds this] obtain mat0 where
    m0: "foldM (\<lambda>p m. setitem m p 1) (rooms ?h ?w) (zeros ?h ?w) = Inr mat0"
      "nrows mat0 = ?h" "ncols mat0 = ?w" "binary mat0"
    by (auto simp: zeros_def)
  let ?s0 = "\<lparr>gmat = mat0, unvisited = rooms ?h ?w, visiting = [], gpos = 0\<rparr>"
  have "gen_ok ?h ?w ?s0"
    using m0 rooms_in_bounds[of ?h ?w] by (simp add: gen_ok_def in_bounds_def zeros_def)
  from carve_loop_ok[OF this] obtain s where
    s: "carve_loop rnd ?s0 = Inr s" "gen_ok ?h ?w s" by blast
  let ?g = "gmat s"
  from s(2) have sh: "nrows ?g = ?h" "ncols ?g = ?w" and bin: "binary ?g"
    by (simp_all add: gen_ok_def)
  let ?m1 = "?g\<lparr>cell := (\<lambda>q. if snd q = nat 1 then 1 else cell ?g q)\<rparr>"
  let ?m2 = "?m1\<lparr>cell := (\<lambda>q. if snd q = nat (int ?w - 2) then 1 else cell ?m1 q)\<rparr>"
  let ?m3 = "?m2\<lparr>cell := (\<lambda>q. if fst q = nat 1 then 1 else cell ?m2 q)\<rparr>"
  let ?m4 = "?m3\<lparr>cell := (\<lambda>q. if fst q = nat (int ?h - 2) then 1 else cell ?m3 q)\<rparr>"
  have c1: "set_col ?g 1 1 = Inr ?m1"
    using assms sh by (intro set_col_ok) simp_all
  have c2: "set_col ?m1 (int ?w - 2) 1 = Inr ?m2"
    using assms sh by (intro set_col_ok) simp_all
  have c3: "set_row ?m2 1 1 = Inr ?m3"
    using assms sh by (intro set_row_ok) simp_all
  have c4: "set_row ?m3 (int ?h - 2) 1 = Inr ?m4"
    using assms sh by (intro set_row_ok) simp_all
  have res: "make_array w0 h0 rnd = Inr (trim ?m4 ?h ?w, gpos s)"
    unfolding make_array_def Let_def m0(1) bindE_def sum.case s(1) c1 c2 c3 c4 ..
  have n: "nrows (trim ?m4 ?h ?w) = h0 - 1" "ncols (trim ?m4 ?h ?w) = w0 - 1"
    using sh by (simp_all add: trim_def)
  have b: "binary (trim ?m4 ?h ?w)"
    using bin by (simp add: trim_def binary_def)
  have bw: "border_walls (trim ?m4 ?h ?w)"
    unfolding border_walls_def on_border_def
    using sh assms by (auto simp: trim_def code_defs nat_diff_distrib)
  from res n b bw show ?thesis by blast
qed


lemma glyph_binary: "v = 0 \<or> v = 1 \<Longrightarrow> glyph codes v = [tile v]"
  by (auto simp: codes_def code_defs tile_def)

lemma concat_map_single: "concat (map (\<lambda>x. [f x]) xs) = map f xs"
  by (induction xs) simp_all

lemma row_string_binary:
  assumes "binary m"
  shows "row_string m y = map (\<lambda>x. tile (cell m (y, x))) [0..<ncols m] @ [NL]"
proof -
  have g: "glyph codes (cell m (y, x)) = [tile (cell m (y, x))]" for x
    using assms by (intro glyph_binary) (simp add: binary_def)
  show ?thesis unfolding row_string_def g concat_map_single ..
qed

lemma array_to_string_binary:
  assumes "binary m"
  shows "array_to_string_maze m = concat (map (\<lambda>r. r @ [NL]) (grid_rows m))"
  unfolding array_to_string_maze_def grid_rows_def map_map comp_def
    row_string_binary[OF assms] ..

lemma split_nl_line: "NL \<notin> set r \<Longrightarrow> split_nl (r @ NL # rest) = r # split_nl rest"
  by (induction r) auto

lemma split_nl_rows:
  "\<forall>r \<in> set rows. NL \<notin> set r \<Longrightarrow> split_nl (concat (map (\<lambda>r. r @ [NL]) rows)) = rows @ [[]]"
  by (induction rows) (simp_all add: split_nl_line)

lemma grid_rows_shape:
  "length (grid_rows m) = nrows m \<and> (\<forall>r \<in> set (grid_rows m). length r = ncols m \<and> NL \<notin> set r)"
  by (auto simp: grid_rows_def tile_def)

lemma grid_rows_nth:
  "i < nrows m \<Longrightarrow> j < ncols m \<Longrightarrow> grid_rows m ! i ! j = tile (cell m (i, j))"
  by (simp add: grid_rows_def)


lemma place_marks_none: "place_marks False False rnd k maze = Inr maze"
  by (simp add: place_marks_def bindE_def)

text \<open>
  C2 (what the code returns). For \<open>w, h \<ge> 1\<close> and no placement, \<open>make_maze w h\<close> returns
  a text of \<open>h - 1\<close> rows of \<open>w - 1\<close> cells, each row followed by a line break: the array of
  \<open>(h + 1) \<times> (w + 1)\<close> cells loses one row and one column on each side, so the maze is one
  row and one column short of the height and width asked for.
\<close>

theorem make_maze_dimensions:
  assumes "1 \<le> w" and "1 \<le> h"
  shows "\<exists>rows. make_maze w h False False rnd = Inr (concat (map (\<lambda>r. r @ [NL]) rows))
           \<and> split_nl (concat (map (\<lambda>r. r @ [NL]) rows)) = rows @ [[]]
           \<and> length rows = h - 1 \<and> (\<forall>r \<in> set rows. length r = w - 1)"
proof -
  from make_array_ok[OF assms, of rnd] obtain m k where
    m: "make_array w h rnd = Inr (m, k)" "nrows m = h - 1" "ncols m = w - 1" "binary m"
    by blast
  have "make_maze w h False False rnd = Inr (concat (map (\<lambda>r. r @ [NL]) (grid_rows m)))"
    by (simp add: make_maze_def m(1) bindE_def place_marks_none array_to_string_binary[OF m(4)])
  moreover have "split_nl (concat (map (\<lambda>r. r @ [NL]) (grid_rows m))) = grid_rows m @ [[]]"
    using grid_rows_shape[of m] by (intro split_nl_rows) simp
  ultimately show ?thesis using grid_rows_shape[of m] m(2,3) by auto
qed

theorem make_maze_dimensions_witness:
  "(1::nat) \<le> 4 \<and> make_maze 4 4 False False (tape [])
       = Inr (''###'' @ [NL] @ ''# #'' @ [NL] @ ''###'' @ [NL])
   \<and> (\<exists>rows. make_maze 4 4 False False (tape []) = Inr (concat (map (\<lambda>r. r @ [NL]) rows))
         \<and> split_nl (concat (map (\<lambda>r. r @ [NL]) rows)) = rows @ [[]]
         \<and> length rows = 3 \<and> list_all (\<lambda>r. length r = 3) rows)"
proof -
  have e: "make_maze 4 4 False False (tape []) = Inr (''###'' @ [NL] @ ''# #'' @ [NL] @ ''###'' @ [NL])"
    by code_simp
  from make_maze_dimensions[of 4 4 "tape []"] e show ?thesis
    by (simp add: list_all_iff)
qed


section \<open>The generator: placement of Start and End\<close>

lemma marked_refl: "list_all2 marked xs xs"
  by (simp add: list_all2_refl marked_def)

lemma marked_update:
  assumes "list_all2 marked xs ys" and "k < length xs" and "marked (xs ! k) v"
  shows "list_all2 marked xs (ys[k := v])"
  using assms by (auto simp: list_all2_conv_all_nth nth_list_update)

lemma spaces_are_spaces:
  assumes "k \<in> set (map fst (filter (\<lambda>ic. snd ic = CHR '' '') (enumerate 0 maze)))"
  shows "k < length maze \<and> maze ! k = CHR '' ''"
  using assms by (auto simp: in_set_enumerate_eq)

lemma place_marks_marked:
  assumes "place_marks start end' rnd k maze = Inr maze'"
  shows "list_all2 marked maze maze'"
proof -
  let ?sp = "map fst (filter (\<lambda>ic. snd ic = CHR '' '') (enumerate 0 maze))"
  have sp: "\<And>i. i \<in> set ?sp \<Longrightarrow> i < length maze \<and> marked (maze ! i) (code_char c_start)
              \<and> marked (maze ! i) (code_char c_end)"
    using spaces_are_spaces[of _ maze] by (simp add: marked_def code_defs)
  from assms obtain maze1 spaces1 k1 where
    a: "(if start
         then bindE (randrange rnd k (length ?sp)) (\<lambda>i.
                Inr (maze[?sp ! i := code_char c_start], remove_nth i ?sp, Suc k))
         else Inr (maze, ?sp, k)) = Inr (maze1, spaces1, k1)"
    and b: "(if end'
           then bindE (randrange rnd k1 (length spaces1)) (\<lambda>j.
                  Inr (maze1[spaces1 ! j := code_char c_end]))
           else Inr maze1) = Inr maze'"
    unfolding place_marks_def Let_def by (auto elim!: bindE_InrE)
  have m1: "list_all2 marked maze maze1 \<and> set spaces1 \<subseteq> set ?sp"
  proof (cases start)
    case False
    with a have "maze1 = maze" "spaces1 = ?sp" by auto
    then show ?thesis by (simp only: marked_refl subset_refl simp_thms)
  next
    case True
    with a obtain i where i: "randrange rnd k (length ?sp) = Inr i"
      and r: "maze1 = maze[?sp ! i := code_char c_start]" "spaces1 = remove_nth i ?sp"
      by (auto elim!: bindE_InrE)
    from i have "i < length ?sp" by (auto simp: randrange_def split: if_splits)
    then have "?sp ! i \<in> set ?sp" by (rule nth_mem)
    from sp[OF this] r show ?thesis
      using marked_update[OF marked_refl, of "?sp ! i" maze] set_remove_nth[of i ?sp] by simp
  qed
  show ?thesis
  proof (cases end')
    case False
    with b m1 show ?thesis by simp
  next
    case True
    with b obtain j where j: "randrange rnd k1 (length spaces1) = Inr j"
      and r: "maze' = maze1[spaces1 ! j := code_char c_end]"
      by (auto elim!: bindE_InrE)
    from j have "j < length spaces1" by (auto simp: randrange_def split: if_splits)
    then have "spaces1 ! j \<in> set spaces1" by (rule nth_mem)
    with m1 have "spaces1 ! j \<in> set ?sp" by blast
    from sp[OF this] r m1 show ?thesis
      using marked_update[of maze maze1 "spaces1 ! j"] by simp
  qed
qed

lemma marked_rows:
  "list_all2 marked (concat (map (\<lambda>r. r @ [NL]) rows)) ys \<Longrightarrow>
   \<exists>rows'. ys = concat (map (\<lambda>r. r @ [NL]) rows') \<and> list_all2 (list_all2 marked) rows rows'"
proof (induction rows arbitrary: ys)
  case Nil
  then show ?case by simp
next
  case (Cons r rows)
  from Cons.prems have "list_all2 marked (r @ [NL] @ concat (map (\<lambda>r. r @ [NL]) rows)) ys"
    by simp
  then obtain u1 rest where ys1: "ys = u1 @ rest" and u1: "list_all2 marked r u1"
    and rest: "list_all2 marked ([NL] @ concat (map (\<lambda>r. r @ [NL]) rows)) rest"
    by (auto simp: list_all2_append1)
  from rest[unfolded list_all2_append1] obtain u2 vs where r2: "rest = u2 @ vs" and u2: "list_all2 marked [NL] u2"
    and vs: "list_all2 marked (concat (map (\<lambda>r. r @ [NL]) rows)) vs"
    by blast
  from u2 have u2': "u2 = [NL]"
    by (auto simp: list_all2_Cons1 marked_def)
  from Cons.IH[OF vs] obtain rows' where
    "vs = concat (map (\<lambda>r. r @ [NL]) rows')" "list_all2 (list_all2 marked) rows rows'" by blast
  with ys1 r2 u2' u1 have "ys = concat (map (\<lambda>r. r @ [NL]) (u1 # rows'))
      \<and> list_all2 (list_all2 marked) (r # rows) (u1 # rows')"
    by simp
  then show ?case by blast
qed


lemma marked_tile_not_NL: "marked (tile v) c \<Longrightarrow> c \<noteq> NL"
  by (cases "v = 0") (auto simp: marked_def tile_def)

lemma marked_wall: "marked (tile 1) c \<Longrightarrow> c = code_char c_wall"
  by (auto simp: marked_def tile_def code_defs)

text \<open>
  C8. For \<open>w, h \<ge> 1\<close>, every text that \<open>make_maze w h\<close> returns, with or without Start
  and End placed, is \<open>h - 1\<close> rows of \<open>w - 1\<close> cells, and every cell of its first row, last
  row, first column and last column is a Wall cell.
\<close>

theorem make_maze_border_walls:
  assumes "1 \<le> w" and "1 \<le> h" and "make_maze w h start end' rnd = Inr maze"
  shows "\<exists>rows. maze = concat (map (\<lambda>r. r @ [NL]) rows) \<and> split_nl maze = rows @ [[]]
           \<and> length rows = h - 1 \<and> (\<forall>r \<in> set rows. length r = w - 1)
           \<and> (\<forall>i j. i < h - 1 \<and> j < w - 1 \<and> (i = 0 \<or> Suc i = h - 1 \<or> j = 0 \<or> Suc j = w - 1)
                 \<longrightarrow> rows ! i ! j = code_char c_wall)"
proof -
  from make_array_ok[OF assms(1,2), of rnd] obtain m k where
    m: "make_array w h rnd = Inr (m, k)" and sh: "nrows m = h - 1" "ncols m = w - 1"
    and bin: "binary m" and bw: "border_walls m"
    by blast
  from assms(3) have "place_marks start end' rnd k (array_to_string_maze m) = Inr maze"
    by (simp add: make_maze_def m bindE_def)
  from place_marks_marked[OF this]
  have "list_all2 marked (concat (map (\<lambda>r. r @ [NL]) (grid_rows m))) maze"
    by (simp only: array_to_string_binary[OF bin])
  from marked_rows[OF this] obtain rows where
    mz: "maze = concat (map (\<lambda>r. r @ [NL]) rows)"
    and rel: "list_all2 (list_all2 marked) (grid_rows m) rows" by blast
  have len: "length rows = nrows m"
    using list_all2_lengthD[OF rel] grid_rows_shape[of m] by simp
  have row: "list_all2 marked (grid_rows m ! i) (rows ! i)" if "i < nrows m" for i
    using rel that grid_rows_shape[of m] by (simp add: list_all2_conv_all_nth)
  have rlen: "length (rows ! i) = ncols m" if "i < nrows m" for i
    using list_all2_lengthD[OF row[OF that]] that grid_rows_shape[of m] by simp
  have cellm: "marked (tile (cell m (i, j))) (rows ! i ! j)" if "i < nrows m" "j < ncols m" for i j
  proof -
    have "length (grid_rows m ! i) = ncols m"
      using that(1) grid_rows_shape[of m] by simp
    with row[OF that(1)] that(2) have "marked (grid_rows m ! i ! j) (rows ! i ! j)"
      by (simp add: list_all2_conv_all_nth)
    then show ?thesis by (simp only: grid_rows_nth[OF that])
  qed
  have lens: "\<forall>r \<in> set rows. length r = ncols m"
    using rlen len by (auto simp: in_set_conv_nth)
  have nonl: "\<forall>r \<in> set rows. NL \<notin> set r"
  proof (intro ballI notI)
    fix r assume r: "r \<in> set rows" and "NL \<in> set r"
    then obtain i j where i: "i < length rows" "r = rows ! i" and j: "j < length r" "r ! j = NL"
      by (auto simp: in_set_conv_nth)
    from i len have i': "i < nrows m" by simp
    from j i rlen[OF i'] have j': "j < ncols m" by simp
    from marked_tile_not_NL[OF cellm[OF i' j']] i j show False by simp
  qed
  have sp: "split_nl maze = rows @ [[]]"
    unfolding mz by (rule split_nl_rows[OF nonl])
  have border: "rows ! i ! j = code_char c_wall"
    if "i < h - 1 \<and> j < w - 1 \<and> (i = 0 \<or> Suc i = h - 1 \<or> j = 0 \<or> Suc j = w - 1)" for i j
  proof -
    from that sh have ij: "i < nrows m" "j < ncols m" and "on_border m (i, j)"
      by (auto simp: on_border_def)
    with bw have "cell m (i, j) = 1" by (simp add: border_walls_def code_defs)
    with cellm[OF ij] show ?thesis by (simp add: marked_wall)
  qed
  from mz sp len lens border sh show ?thesis by auto
qed


theorem make_maze_border_walls_witness:
  "(1::nat) \<le> 6 \<and> make_maze 6 6 True True (tape [8, 0, 0, 6, 0, 0, 1, 2, 0, 0, 0, 0, 0, 0, 1, 2, 0, 0, 1]) = Inr (''#####'' @ [NL] @ ''#&! #'' @ [NL] @ ''#####'' @ [NL] @ ''#   #'' @ [NL] @ ''#####'' @ [NL])
   \<and> (\<exists>rows. (''#####'' @ [NL] @ ''#&! #'' @ [NL] @ ''#####'' @ [NL] @ ''#   #'' @ [NL] @ ''#####'' @ [NL]) = concat (map (\<lambda>r. r @ [NL]) rows) \<and> split_nl (''#####'' @ [NL] @ ''#&! #'' @ [NL] @ ''#####'' @ [NL] @ ''#   #'' @ [NL] @ ''#####'' @ [NL]) = rows @ [[]]
         \<and> length rows = 5 \<and> rows ! 0 ! 0 = code_char c_wall
         \<and> rows ! 4 ! 2 = code_char c_wall \<and> rows ! 2 ! 4 = code_char c_wall)"
proof -
  have e: "make_maze 6 6 True True (tape [8, 0, 0, 6, 0, 0, 1, 2, 0, 0, 0, 0, 0, 0, 1, 2, 0, 0, 1]) = Inr (''#####'' @ [NL] @ ''#&! #'' @ [NL] @ ''#####'' @ [NL] @ ''#   #'' @ [NL] @ ''#####'' @ [NL])"
    by code_simp
  have one: "(1::nat) \<le> 6" by simp
  from make_maze_border_walls[OF one one e] obtain rows where
    r: "(''#####'' @ [NL] @ ''#&! #'' @ [NL] @ ''#####'' @ [NL] @ ''#   #'' @ [NL] @ ''#####'' @ [NL]) = concat (map (\<lambda>r. r @ [NL]) rows)" "split_nl (''#####'' @ [NL] @ ''#&! #'' @ [NL] @ ''#####'' @ [NL] @ ''#   #'' @ [NL] @ ''#####'' @ [NL]) = rows @ [[]]"
      "length rows = 6 - 1"
    and b: "\<forall>i j. i < 6 - 1 \<and> j < 6 - 1 \<and> (i = 0 \<or> Suc i = 6 - 1 \<or> j = 0 \<or> Suc j = 6 - 1)
                 \<longrightarrow> rows ! i ! j = code_char c_wall"
    by blast
  from b have "rows ! 0 ! 0 = code_char c_wall" "rows ! 4 ! 2 = code_char c_wall"
    "rows ! 2 ! 4 = code_char c_wall" by simp_all
  with e r show ?thesis by simp
qed


section \<open>The generator: connectivity\<close>

text \<open>
  The list \<open>visiting\<close> only ever holds numbers, so no pair is found in it and the test
  \<open>n not in visiting\<close> of the loop never excludes a room.
\<close>

lemma carve_step_visiting:
  assumes "carve_step rnd s = Inr s'" and "\<forall>v \<in> set (visiting s). \<exists>i. v = PyInt i"
  shows "\<forall>v \<in> set (visiting s'). \<exists>i. v = PyInt i"
proof -
  from assms(1) have "visiting s' = visiting s @ [PyInt (fst (unvisited s ! (rnd (gpos s) mod length (unvisited s)))),
        PyInt (snd (unvisited s ! (rnd (gpos s) mod length (unvisited s))))]
      \<or> visiting s' = butlast (visiting s) \<or> visiting s' = visiting s"
    unfolding carve_step_def Let_def
    by (auto split: if_splits elim!: bindE_InrE)
  with assms(2) show ?thesis using in_set_butlastD[of _ "visiting s"] by auto
qed

lemma never_in_visiting:
  "\<forall>v \<in> set (visiting s). \<exists>i. v = PyInt i \<Longrightarrow> PyTuple n \<notin> set (visiting s)"
  by auto

lemma all_walls_row: "c < 5 \<Longrightarrow> ''#####'' ! c \<noteq> CHR '' ''"
  using nth_mem[of c "''#####''"] by auto

text \<open>
  C1 (the code at a failing input). The loop of \<open>make_maze\<close> pops each room once, in the
  order of the set, and joins it to one neighbour still in the set; it never follows the
  chosen neighbour, and the test \<open>n not in visiting\<close> compares a pair with numbers. The
  cells it sets are Wall cells, and the Path cells are what is left between them. For
  \<open>make_maze 6 6\<close>, with the rooms popped as CPython 3.11 pops them and two outcomes of
  \<open>shuffle\<close>, room (3, 1) is joined to (3, 3) and (3, 3) to (3, 5): the middle row is all
  Wall, and the Path cells of row 1 are cut off from those of row 3.
\<close>

theorem make_maze_not_connected:
  "make_maze 6 6 False False (tape [8, 0, 0, 6, 0, 0, 1, 2, 0, 0, 0, 0, 0, 0, 1, 2, 0, 0, 1]) = Inr (''#####'' @ [NL] @ ''#   #'' @ [NL] @ ''#####'' @ [NL] @ ''#   #'' @ [NL] @ ''#####'' @ [NL])
   \<and> is_path (''#####'' @ [NL] @ ''#   #'' @ [NL] @ ''#####'' @ [NL] @ ''#   #'' @ [NL] @ ''#####'' @ [NL]) (1, 1) \<and> is_path (''#####'' @ [NL] @ ''#   #'' @ [NL] @ ''#####'' @ [NL] @ ''#   #'' @ [NL] @ ''#####'' @ [NL]) (3, 1)
   \<and> ((1, 1), (3, 1)) \<notin> (link (''#####'' @ [NL] @ ''#   #'' @ [NL] @ ''#####'' @ [NL] @ ''#   #'' @ [NL] @ ''#####'' @ [NL]))\<^sup>*"
proof -
  have e: "make_maze 6 6 False False (tape [8, 0, 0, 6, 0, 0, 1, 2, 0, 0, 0, 0, 0, 0, 1, 2, 0, 0, 1]) = Inr (''#####'' @ [NL] @ ''#   #'' @ [NL] @ ''#####'' @ [NL] @ ''#   #'' @ [NL] @ ''#####'' @ [NL])"
    by code_simp
  have sp: "split_nl (''#####'' @ [NL] @ ''#   #'' @ [NL] @ ''#####'' @ [NL] @ ''#   #'' @ [NL] @ ''#####'' @ [NL]) = [''#####'', ''#   #'', ''#####'', ''#   #'', ''#####'', []]"
    by simp
  have p1: "is_path (''#####'' @ [NL] @ ''#   #'' @ [NL] @ ''#####'' @ [NL] @ ''#   #'' @ [NL] @ ''#####'' @ [NL]) (1, 1)" and p3: "is_path (''#####'' @ [NL] @ ''#   #'' @ [NL] @ ''#####'' @ [NL] @ ''#   #'' @ [NL] @ ''#####'' @ [NL]) (3, 1)"
    unfolding is_path_def sp by (simp_all add: code_defs)
  have no0: "\<not> is_path (''#####'' @ [NL] @ ''#   #'' @ [NL] @ ''#####'' @ [NL] @ ''#   #'' @ [NL] @ ''#####'' @ [NL]) (0, c)" for c
    unfolding is_path_def sp using all_walls_row[of c] by (auto simp: code_defs)
  have no2: "\<not> is_path (''#####'' @ [NL] @ ''#   #'' @ [NL] @ ''#####'' @ [NL] @ ''#   #'' @ [NL] @ ''#####'' @ [NL]) (2, c)" for c
    unfolding is_path_def sp using all_walls_row[of c] by (auto simp: code_defs)
  have row1: "fst q = 1" if "((1, 1), q) \<in> (link (''#####'' @ [NL] @ ''#   #'' @ [NL] @ ''#####'' @ [NL] @ ''#   #'' @ [NL] @ ''#####'' @ [NL]))\<^sup>*" for q
    using that
  proof (induction rule: rtrancl_induct)
    case base
    show ?case by simp
  next
    case (step y z)
    from step.hyps(2) have pz: "is_path (''#####'' @ [NL] @ ''#   #'' @ [NL] @ ''#####'' @ [NL] @ ''#   #'' @ [NL] @ ''#####'' @ [NL]) z" and adj: "adjacent y z"
      by (simp_all add: link_def)
    from adj step.IH have "fst z = 0 \<or> fst z = 1 \<or> fst z = 2"
      by (auto simp: adjacent_def)
    with pz no0[of "snd z"] no2[of "snd z"] show ?case
      by (cases z) auto
  qed
  have "((1, 1), (3, 1)) \<notin> (link (''#####'' @ [NL] @ ''#   #'' @ [NL] @ ''#####'' @ [NL] @ ''#   #'' @ [NL] @ ''#####'' @ [NL]))\<^sup>*"
  proof
    assume "((1, 1), (3::nat, 1::nat)) \<in> (link (''#####'' @ [NL] @ ''#   #'' @ [NL] @ ''#####'' @ [NL] @ ''#   #'' @ [NL] @ ''#####'' @ [NL]))\<^sup>*"
    from row1[OF this] show False by simp
  qed
  with e p1 p3 show ?thesis by blast
qed

section \<open>Round trip of the text\<close>

text \<open>
  C4 (the code at a failing input). \<open>array_to_string_maze\<close> ends every row, the last too,
  with a line break, and \<open>split('\\n')\<close> then yields an empty last piece, which
  \<open>string_to_array_maze\<close> counts as a row. For the array of \<open>make_maze 4 4\<close> the text is
  three rows, the array parsed from it has four, and its text has one more row, of Path
  cells.
\<close>

theorem round_trip_adds_row:
  "map_sum id (\<lambda>mk. array_to_string_maze (fst mk)) (make_array 4 4 (tape []))
     = Inr (''###'' @ [NL] @ ''# #'' @ [NL] @ ''###'' @ [NL])
   \<and> map_sum id array_to_string_maze
       (string_to_array_maze (''###'' @ [NL] @ ''# #'' @ [NL] @ ''###'' @ [NL]))
     = Inr (''###'' @ [NL] @ ''# #'' @ [NL] @ ''###'' @ [NL] @ ''   '' @ [NL])
   \<and> map_sum id nrows (string_to_array_maze (''###'' @ [NL] @ ''# #'' @ [NL] @ ''###'' @ [NL]))
     = Inr 4"
  by code_simp


section \<open>The solver ends below verbosity 3\<close>

text \<open>
  At verbosity 0, 1 or 2 every pass that does not end the loop either marks a new cell
  Visited or removes from the frontier an entry whose cell is Visited already, and adds
  only entries whose cell is not. So the loop ends, by finding End, by emptying the
  frontier or by raising, for every maze, strategy and random tape.
\<close>

lemma setitem_cases:
  assumes "setitem m p v = Inr m'"
  obtains q where "q \<in> set (coords m)" and "m' = m\<lparr>cell := (cell m)(q := v)\<rparr>"
    and "getitem m p = Inr (cell m q)"
proof -
  from assms obtain r c where r: "norm_index (nrows m) (fst p) = Inr r"
    and c: "norm_index (ncols m) (snd p) = Inr c"
    and m': "m' = m\<lparr>cell := (cell m)((r, c) := v)\<rparr>"
    by (auto simp: setitem_def split: sum.splits)
  from r have "r < nrows m" by (auto simp: norm_index_def split: if_splits)
  moreover from c have "c < ncols m" by (auto simp: norm_index_def split: if_splits)
  ultimately have "(r, c) \<in> set (coords m)" by (simp add: set_coords)
  moreover have "getitem m p = Inr (cell m (r, c))" using r c by (simp add: getitem_def)
  ultimately show ?thesis using m' that by blast
qed

lemma length_filter_stronger:
  assumes "\<And>y. y \<in> set xs \<Longrightarrow> Q y \<Longrightarrow> P y" and "x \<in> set xs" and "P x" and "\<not> Q x"
  shows "length (filter Q xs) < length (filter P xs)"
proof -
  have eq: "filter Q (filter P xs) = filter Q xs"
    using assms(1) by (auto intro: filter_cong)
  have "x \<in> set (filter P xs)" using assms(2,3) by simp
  from length_filter_less[of x "filter P xs" Q, OF this assms(4)] show ?thesis
    by (simp only: eq)
qed

lemma coords_update [simp]: "coords (m\<lparr>cell := f\<rparr>) = coords m"
  by (simp add: coords_def)

lemma fresh_cells_visit:
  assumes "q \<in> set (coords m)" and "cell m q \<noteq> code_num c_visited"
  shows "fresh_cells (m\<lparr>cell := (cell m)(q := code_num c_visited)\<rparr>) < fresh_cells m"
  unfolding fresh_cells_def coords_update
  by (rule length_filter_stronger[where x = q]) (use assms in \<open>auto split: if_splits\<close>)


lemma pop_stack_count:
  assumes "xs \<noteq> []" and "P (fst (pop_stack st xs))"
  shows "length (filter P xs) = Suc (length (filter P (snd (pop_stack st xs))))"
proof (cases "st = ''bfs''")
  case True
  with assms show ?thesis by (cases xs) (simp_all add: pop_stack_def)
next
  case False
  have "xs = butlast xs @ [last xs]" using assms(1) by simp
  then have "filter P xs = filter P (butlast xs) @ filter P [last xs]"
    by (metis filter_append)
  with False assms(2) show ?thesis by (simp add: pop_stack_def)
qed

lemma solve_iter_decreases:
  assumes v: "verbosity cfg < 3" and ne: "stack s \<noteq> []"
    and it: "solve_iter rnd cfg s = Inr (False, s')"
  shows "(s', s) \<in> measures [\<lambda>s. fresh_cells (mat s), stale_entries]"
proof -
  let ?c = "popped cfg s"
  let ?P = "\<lambda>m p. getitem m p = Inr (code_num c_visited)"
  from solve_iter_continue[OF it] v obtain m1 m2 nxt where
    m1: "setitem (mat s) ?c (code_num c_current) = Inr m1"
    and m2: "setitem m1 ?c (code_num c_visited) = Inr m2"
    and nx: "admissible m2 (prospective ?c) = Inr nxt"
    and ms: "mat s' = m2"
    and st: "stack s' = snd (pop_stack (strategy cfg) (stack s))
                @ (if strategy cfg = ''a*'' then sorted_by_distance (endp cfg) nxt
                   else shuffle rnd (draws s) nxt)"
    by auto
  from m2 have "setitem (mat s) ?c (code_num c_visited) = Inr m2"
    by (simp only: setitem_twice[OF m1])
  then obtain q where q: "q \<in> set (coords (mat s))"
    and m2': "m2 = (mat s)\<lparr>cell := (cell (mat s))(q := code_num c_visited)\<rparr>"
    and g: "getitem (mat s) ?c = Inr (cell (mat s) q)"
    by (rule setitem_cases)
  show ?thesis
  proof (cases "cell (mat s) q = code_num c_visited")
    case False
    from fresh_cells_visit[OF q False] ms m2' show ?thesis by simp
  next
    case True
    then have "(cell (mat s))(q := code_num c_visited) = cell (mat s)"
      by (simp only: fun_upd_idem)
    then have same: "m2 = mat s" using m2' by simp
    let ?new = "if strategy cfg = ''a*'' then sorted_by_distance (endp cfg) nxt
                else shuffle rnd (draws s) nxt"
    have "set ?new = set nxt" by (simp add: set_shuffle set_sorted_by_distance)
    moreover have "\<forall>p \<in> set nxt. \<not> ?P (mat s) p"
      using admissible_filter[OF nx] same by auto
    ultimately have "filter (?P (mat s)) ?new = []"
      by (simp add: filter_empty_conv)
    then have a: "stale_entries s'
        = length (filter (?P (mat s)) (snd (pop_stack (strategy cfg) (stack s))))"
      unfolding stale_entries_def ms same st by simp
    have "?P (mat s) (fst (pop_stack (strategy cfg) (stack s)))"
      using g True by (simp add: popped_def)
    from pop_stack_count[OF ne, of "?P (mat s)", OF this]
    have b: "stale_entries s
        = Suc (length (filter (?P (mat s)) (snd (pop_stack (strategy cfg) (stack s)))))"
      by (simp add: stale_entries_def)
    from a b ms same show ?thesis by simp
  qed
qed

lemma solve_loop_ends:
  assumes "verbosity cfg < 3"
  shows "\<exists>n. solve_loop n rnd cfg s \<noteq> None"
proof (induction s rule: wf_induct_rule[OF wf_measures[of "[\<lambda>s. fresh_cells (mat s), stale_entries]"]])
  case (1 s)
  show ?case
  proof (cases "stack s = []")
    case True
    then have "solve_loop (Suc 0) rnd cfg s \<noteq> None" by simp
    then show ?thesis by blast
  next
    case ne: False
    show ?thesis
    proof (cases "solve_iter rnd cfg s")
      case (Inl e)
      with ne have "solve_loop (Suc 0) rnd cfg s \<noteq> None" by simp
      then show ?thesis by blast
    next
      case (Inr r)
      show ?thesis
      proof (cases "fst r")
        case True
        with ne Inr have "solve_loop (Suc 0) rnd cfg s \<noteq> None" by simp
        then show ?thesis by blast
      next
        case False
        with Inr have "solve_iter rnd cfg s = Inr (False, snd r)" by (cases r) simp
        from solve_iter_decreases[OF assms ne this] 1 obtain n where
          "solve_loop n rnd cfg (snd r) \<noteq> None" by blast
        with ne Inr False have "solve_loop (Suc n) rnd cfg s \<noteq> None" by simp
        then show ?thesis by blast
      qed
    qed
  qed
qed


lemma solve_ends_below_verbosity_3:
  assumes "verb < 3"
  shows "\<exists>n. solve n rnd maze strat verb \<noteq> None"
proof (cases "solve_init maze strat verb")
  case (Inl e)
  then show ?thesis by (simp add: solve_def)
next
  case (Inr cs)
  then have "solve_init maze strat verb = Inr (fst cs, snd cs)" by simp
  from solve_init_state[OF this] assms have "verbosity (fst cs) < 3" by simp
  from solve_loop_ends[OF this, of rnd "snd cs"] Inr show ?thesis
    by (simp add: solve_def)
qed


end
